theory Spec2Isabelle
  imports Main "HOL-Library.AList"
begin

section \<open>Strings and paths\<close>

text \<open>
  Python strings are modelled as \<^typ>\<open>string\<close>: one \<^typ>\<open>char\<close> per code point,
  restricted to the code points below 256. \<open>str.isspace\<close> is true when the string
  has at least one character and every character is whitespace; below 256 the
  whitespace code points are 9..13, 28..32, 133 and 160.
\<close>

definition isspace_char :: "char \<Rightarrow> bool" where
  "isspace_char c =
     (let n = (of_char c :: nat)
      in (9 \<le> n \<and> n \<le> 13) \<or> (28 \<le> n \<and> n \<le> 32) \<or> n = 133 \<or> n = 160)"

definition isspace :: "string \<Rightarrow> bool" where
  "isspace s = (s \<noteq> [] \<and> list_all isspace_char s)"

text \<open>\<open>s.split(sep)\<close> for a one-character separator: always at least one piece.\<close>

fun split :: "char \<Rightarrow> string \<Rightarrow> string list" where
  "split sep [] = [[]]"
| "split sep (c # cs) =
     (if c = sep then [] # split sep cs
      else (case split sep cs of
              [] \<Rightarrow> [[c]]
            | w # ws \<Rightarrow> (c # w) # ws))"

text \<open>The comprehension \<open>[e for e in path if e]\<close>: keep the non-empty pieces.\<close>

definition nonempty_items :: "string list \<Rightarrow> string list" where
  "nonempty_items path = filter (\<lambda>e. e \<noteq> []) path"

section \<open>The tree store\<close>

text \<open>
  Modelled from the spec: the tree store that the three modules receive as \<open>db\<close>
  (the \<open>PyKeePass\<close> object) is an external collaborator and is not among the source
  files. Sections 3 and 6 of the specification describe it: a tree of named groups
  holding named entries, with exact-path group lookup, exact-path entry lookup,
  creation of a group or an entry under a given parent, entry deletion and \<open>save\<close>.

  An entry carries a title, optional username, password and url, and its custom
  properties (a dict, kept as an association list in insertion order).
  A group carries its name, its direct entries and its child groups, both in the
  store's enumeration order.
\<close>

record entry =
  title :: string
  username :: "string option"
  password :: "string option"
  url :: "string option"
  custom_properties :: "(string \<times> string) list"

datatype group = Group (name: string) (entries: "entry list") (subgroups: "group list")

text \<open>
  The modules hold references to groups and entries of the store. A group reference
  is the list of child positions leading from the root group to the group; an entry
  reference is the reference of its group and the entry's position there. Creation
  appends, so references to groups stay valid while groups are added.
\<close>

type_synonym gref = "nat list"
type_synonym eref = "gref \<times> nat"

fun group_at :: "group \<Rightarrow> gref \<Rightarrow> group option" where
  "group_at g [] = Some g"
| "group_at g (i # r) =
     (if i < length (subgroups g) then group_at (subgroups g ! i) r else None)"

fun update_at :: "gref \<Rightarrow> (group \<Rightarrow> group) \<Rightarrow> group \<Rightarrow> group" where
  "update_at [] f g = f g"
| "update_at (i # r) f g =
     (if i < length (subgroups g)
      then Group (name g) (entries g) ((subgroups g)[i := update_at r f (subgroups g ! i)])
      else g)"

definition entry_at :: "group \<Rightarrow> eref \<Rightarrow> entry option" where
  "entry_at t e =
     (case group_at t (fst e) of
        None \<Rightarrow> None
      | Some g \<Rightarrow> if snd e < length (entries g) then Some (entries g ! snd e) else None)"

text \<open>
  Every call of a store operation is recorded, in order, so that "before any access
  to the store" and "save is called" are statements about the record of calls.
\<close>

datatype call =
    FindGroups "string list"
  | FindEntriesByPath "string list"
  | AddGroup gref string
  | AddEntry "gref option" string
  | DeleteEntry eref
  | SetCustomProperty eref string string
  | Save string

record PyKeePass =
  tree :: group
  calls :: "call list"

datatype error = ValueError | IndexError | AttributeError | EntryExists | StaleReference

definition root_group :: gref where
  "root_group = []"

text \<open>
  Exact-path lookup. The groups matching a path are found level by level: the root
  group matches the empty path, and a group matches \<open>path @ [s]\<close> when it is a child
  named \<open>s\<close> of a group matching \<open>path\<close>. Matches are kept in the store's enumeration
  order and a lookup returns the first one (sibling names are assumed unique by the
  specification but not enforced).
\<close>

definition children_named :: "group \<Rightarrow> string \<Rightarrow> gref \<Rightarrow> gref list" where
  "children_named t s r =
     (case group_at t r of
        None \<Rightarrow> []
      | Some g \<Rightarrow>
          map (\<lambda>i. r @ [i])
            (filter (\<lambda>i. name (subgroups g ! i) = s) [0..<length (subgroups g)]))"

definition group_matches :: "group \<Rightarrow> string list \<Rightarrow> gref list" where
  "group_matches t path =
     foldl (\<lambda>front s. concat (map (children_named t s) front)) [root_group] path"

definition entries_titled :: "group \<Rightarrow> string \<Rightarrow> gref \<Rightarrow> eref list" where
  "entries_titled t s r =
     (case group_at t r of
        None \<Rightarrow> []
      | Some g \<Rightarrow>
          map (\<lambda>i. (r, i))
            (filter (\<lambda>i. title (entries g ! i) = s) [0..<length (entries g)]))"

definition entry_matches :: "group \<Rightarrow> string list \<Rightarrow> eref list" where
  "entry_matches t path =
     (let group_path = butlast path;
          element = (if path = [] then [] else last path)
      in concat (map (entries_titled t element) (group_matches t group_path)))"

definition first_match :: "'a list \<Rightarrow> 'a option" where
  "first_match xs = (case xs of [] \<Rightarrow> None | x # _ \<Rightarrow> Some x)"

definition find_groups :: "PyKeePass \<Rightarrow> string list \<Rightarrow> gref option \<times> PyKeePass" where
  "find_groups db path =
     (first_match (group_matches (tree db) path),
      db\<lparr>calls := calls db @ [FindGroups path]\<rparr>)"

definition find_entries_by_path :: "PyKeePass \<Rightarrow> string list \<Rightarrow> eref option \<times> PyKeePass" where
  "find_entries_by_path db path =
     (first_match (entry_matches (tree db) path),
      db\<lparr>calls := calls db @ [FindEntriesByPath path]\<rparr>)"

text \<open>Creation of a group: the new group is appended to the children of its parent.\<close>

definition num_subgroups :: "group \<Rightarrow> gref \<Rightarrow> nat" where
  "num_subgroups t r = (case group_at t r of None \<Rightarrow> 0 | Some g \<Rightarrow> length (subgroups g))"

definition append_group :: "string \<Rightarrow> group \<Rightarrow> group" where
  "append_group group_name g =
     Group (name g) (entries g) (subgroups g @ [Group group_name [] []])"

definition add_group :: "PyKeePass \<Rightarrow> gref \<Rightarrow> string \<Rightarrow> gref \<times> PyKeePass" where
  "add_group db destination_group group_name =
     (destination_group @ [num_subgroups (tree db) destination_group],
      db\<lparr>tree := update_at destination_group (append_group group_name) (tree db),
         calls := calls db @ [AddGroup destination_group group_name]\<rparr>)"

text \<open>
  Creation of an entry needs a parent: with no destination group the store fails.
  Unless \<open>force_creation\<close> is set, the store also refuses to create an entry when
  the destination group already holds one with the same title and username.
  The new entry is appended to the entries of its group and has no custom property.
\<close>

definition append_entry :: "entry \<Rightarrow> group \<Rightarrow> group" where
  "append_entry e g = Group (name g) (entries g @ [e]) (subgroups g)"

definition add_entry ::
  "PyKeePass \<Rightarrow> gref option \<Rightarrow> string \<Rightarrow> string option \<Rightarrow> string option \<Rightarrow> string option
     \<Rightarrow> bool \<Rightarrow> (error + eref) \<times> PyKeePass" where
  "add_entry db destination_group ttl usr pwd link force_creation =
     (let db1 = db\<lparr>calls := calls db @ [AddEntry destination_group ttl]\<rparr>
      in case destination_group of
           None \<Rightarrow> (Inl AttributeError, db1)
         | Some r \<Rightarrow>
             (case group_at (tree db) r of
                None \<Rightarrow> (Inl StaleReference, db1)
              | Some g \<Rightarrow>
                  if list_ex (\<lambda>e. title e = ttl \<and> username e = usr) (entries g)
                     \<and> \<not> force_creation
                  then (Inl EntryExists, db1)
                  else (Inr (r, length (entries g)),
                        db1\<lparr>tree :=
                          update_at r
                            (append_entry \<lparr>title = ttl, username = usr, password = pwd,
                                          url = link, custom_properties = []\<rparr>)
                            (tree db)\<rparr>)))"

definition remove_entry :: "nat \<Rightarrow> group \<Rightarrow> group" where
  "remove_entry i g = Group (name g) (take i (entries g) @ drop (Suc i) (entries g)) (subgroups g)"

definition delete_entry :: "PyKeePass \<Rightarrow> eref \<Rightarrow> PyKeePass" where
  "delete_entry db e =
     db\<lparr>tree := update_at (fst e) (remove_entry (snd e)) (tree db),
        calls := calls db @ [DeleteEntry e]\<rparr>"

definition set_property :: "nat \<Rightarrow> string \<Rightarrow> string \<Rightarrow> group \<Rightarrow> group" where
  "set_property i k v g =
     (if i < length (entries g)
      then Group (name g)
             ((entries g)[i := (entries g ! i)
                \<lparr>custom_properties := AList.update k v (custom_properties (entries g ! i))\<rparr>])
             (subgroups g)
      else g)"

definition set_custom_property :: "PyKeePass \<Rightarrow> eref \<Rightarrow> string \<Rightarrow> string \<Rightarrow> PyKeePass" where
  "set_custom_property db e k v =
     db\<lparr>tree := update_at (fst e) (set_property (snd e) k v) (tree db),
        calls := calls db @ [SetCustomProperty e k v]\<rparr>"

definition save :: "PyKeePass \<Rightarrow> string \<Rightarrow> PyKeePass" where
  "save db db_path = db\<lparr>calls := calls db @ [Save db_path]\<rparr>"

text \<open>\<open>entry.path\<close>: the names of the groups from below the root down to the entry's
  group, followed by the entry's title.\<close>

fun names_along :: "group \<Rightarrow> gref \<Rightarrow> string list" where
  "names_along g [] = []"
| "names_along g (i # r) =
     (if i < length (subgroups g)
      then name (subgroups g ! i) # names_along (subgroups g ! i) r
      else [])"

definition entry_path :: "group \<Rightarrow> eref \<Rightarrow> string list" where
  "entry_path t e =
     (case entry_at t e of
        None \<Rightarrow> names_along t (fst e)
      | Some x \<Rightarrow> names_along t (fst e) @ [title x])"

section \<open>The secret record\<close>

text \<open>
  A secret is a dict with at most one key, whose value is the dict of the entry's
  fields. Dicts are association lists in insertion order; storing under a key that is
  already present replaces its value in place (\<^const>\<open>AList.update\<close>).

  The three modules fill the inner dict with the same statements
  (\<open>secret_writer.py\<close> lines 330-336, \<open>secret_reader.py\<close> lines 140-146,
  \<open>group_reader.py\<close> lines 175-182): the username if it is truthy, the password if
  it is truthy, then every custom property.
\<close>

type_synonym secret = "(string \<times> (string \<times> string) list) list"

definition secret_fields :: "entry \<Rightarrow> (string \<times> string) list" where
  "secret_fields e =
     (let d0 = [];
          d1 = (case username e of
                  None \<Rightarrow> d0
                | Some u \<Rightarrow> if u \<noteq> [] then AList.update ''username'' u d0 else d0);
          d2 = (case password e of
                  None \<Rightarrow> d1
                | Some p \<Rightarrow> if p \<noteq> [] then AList.update ''password'' p d1 else d1)
      in if custom_properties e \<noteq> []
         then fold (\<lambda>(k, v). AList.update k v) (custom_properties e) d2
         else d2)"

section \<open>secret\_writer\<close>

text \<open>\<open>_convert_secret_to_dic\<close>: \<open>path[-1]\<close> raises on an empty path.\<close>

definition convert_secret_to_dic :: "string list \<Rightarrow> entry \<Rightarrow> bool \<Rightarrow> error + secret \<times> bool" where
  "convert_secret_to_dic path e changed =
     (if path = [] then Inl IndexError
      else Inr ([(last path, secret_fields e)], changed))"

text \<open>The same, reading the entry object through its reference.\<close>

definition convert_entry ::
  "PyKeePass \<Rightarrow> string list \<Rightarrow> eref \<Rightarrow> bool \<Rightarrow> error + secret option \<times> bool" where
  "convert_entry db path e changed =
     (case entry_at (tree db) e of
        None \<Rightarrow> Inl StaleReference
      | Some x \<Rightarrow>
          (case convert_secret_to_dic path x changed of
             Inl err \<Rightarrow> Inl err
           | Inr (s, c) \<Rightarrow> Inr (Some s, c)))"

text \<open>\<open>for k in custom_properties: entry.set_custom_property(key=str(k),
  value=str(custom_properties[k]))\<close>, on the dict given as its stringified items.\<close>

definition apply_custom_properties ::
  "PyKeePass \<Rightarrow> eref \<Rightarrow> (string \<times> string) list \<Rightarrow> PyKeePass" where
  "apply_custom_properties db e cp = fold (\<lambda>(k, v) d. set_custom_property d e k v) cp db"

text \<open>
  The statements that the three creating branches share (lines 249-255, 258-264,
  306-311 with 321, 314-319 with 321): add the entry, set its custom properties,
  save, convert. The guards \<open>custom_properties is not None\<close> (line 251) and
  \<open>custom_properties\<close> (lines 260, 308, 316) differ on the empty dict only, where the
  loop does nothing.
\<close>

definition create_entry ::
  "PyKeePass \<Rightarrow> string \<Rightarrow> string list \<Rightarrow> gref option \<Rightarrow> string \<Rightarrow> string option
     \<Rightarrow> string option \<Rightarrow> string option \<Rightarrow> (string \<times> string) list option \<Rightarrow> bool
     \<Rightarrow> (error + secret option \<times> bool) \<times> PyKeePass" where
  "create_entry db db_path path destination_group ttl usr pwd link cprops force_creation =
     (case add_entry db destination_group ttl usr pwd link force_creation of
        (Inl err, db1) \<Rightarrow> (Inl err, db1)
      | (Inr e, db1) \<Rightarrow>
          (let db2 = (case cprops of
                        None \<Rightarrow> db1
                      | Some cp \<Rightarrow> apply_custom_properties db1 e cp);
               db3 = save db2 db_path
           in (convert_entry db3 path e True, db3)))"

text \<open>Lines 241-264: the branch for a path of one piece.\<close>

definition write_root ::
  "PyKeePass \<Rightarrow> string \<Rightarrow> string list \<Rightarrow> string option \<Rightarrow> string option \<Rightarrow> string option
     \<Rightarrow> (string \<times> string) list option \<Rightarrow> bool
     \<Rightarrow> (error + secret option \<times> bool) \<times> PyKeePass" where
  "write_root db db_path path usr pwd link cprops force =
     (case find_entries_by_path db path of
        (Some e, db1) \<Rightarrow>
          if \<not> force then (convert_entry db1 path e False, db1)
          else create_entry (delete_entry db1 e) db_path path (Some root_group)
                 (path ! (length path - 1)) usr pwd link cprops True
      | (None, db1) \<Rightarrow>
          create_entry db1 db_path path (Some root_group)
            (path ! (length path - 1)) usr pwd link cprops True)"

text \<open>
  Lines 268-294: the walk over the groups of the path. \<open>items\<close> is what is left of
  the iteration over \<open>path\<close>; \<open>group_path\<close>, \<open>parent_group\<close> and \<open>i\<close> are the
  loop's variables. The loop is only entered with an item of \<open>path\<close>, so
  \<open>path[len(path) - 1]\<close> is in range.
\<close>

fun walk ::
  "string list \<Rightarrow> string list \<Rightarrow> string list \<Rightarrow> gref option \<Rightarrow> nat \<Rightarrow> PyKeePass
     \<Rightarrow> gref option \<times> PyKeePass" where
  "walk path [] group_path parent_group i db = (parent_group, db)"
| "walk path (item # items) group_path parent_group i db =
     (if item = path ! (length path - 1) \<and> i = length path - 1 then (parent_group, db)
      else
        (case find_groups db (group_path @ [item]) of
           (None, db1) \<Rightarrow>
             (case add_group db1
                     (case parent_group of None \<Rightarrow> root_group | Some p \<Rightarrow> p) item of
                (g, db2) \<Rightarrow> walk path items (group_path @ [item]) (Some g) (i + 1) db2)
         | (Some g, db1) \<Rightarrow> walk path items (group_path @ [item]) (Some g) (i + 1) db1))"

text \<open>Lines 296-321: the entry at the end of a walked path. \<open>path[0]\<close> raises on
  an empty path, before \<open>add_entry\<close> is called.\<close>

definition write_nested ::
  "PyKeePass \<Rightarrow> string \<Rightarrow> string list \<Rightarrow> gref option \<Rightarrow> string option \<Rightarrow> string option
     \<Rightarrow> string option \<Rightarrow> (string \<times> string) list option \<Rightarrow> bool
     \<Rightarrow> (error + secret option \<times> bool) \<times> PyKeePass" where
  "write_nested db db_path path parent_group usr pwd link cprops force =
     (case find_entries_by_path db path of
        (Some e, db1) \<Rightarrow>
          if \<not> force then (convert_entry db1 path e False, db1)
          else
            (let db2 = delete_entry db1 e
             in if path = [] then (Inl IndexError, db2)
                else create_entry db2 db_path path parent_group (path ! 0)
                       usr pwd link cprops False)
      | (None, db1) \<Rightarrow>
          if path = [] then (Inl IndexError, db1)
          else create_entry db1 db_path path parent_group (path ! 0)
                 usr pwd link cprops False)"

text \<open>
  \<open>secret_write\<close>. The \<open>if\<close> of line 235 filters a path of more than one piece and
  goes on to the walk; its \<open>elif\<close> (line 239) takes a path of exactly one piece, that
  is a path string without any slash, to the root branch.
\<close>

definition secret_write ::
  "string option \<Rightarrow> PyKeePass \<Rightarrow> string \<Rightarrow> string option \<Rightarrow> string option \<Rightarrow> string option
     \<Rightarrow> (string \<times> string) list option \<Rightarrow> bool
     \<Rightarrow> (error + secret option \<times> bool) \<times> PyKeePass" where
  "secret_write secret_path db db_path usr pwd link cprops force =
     (case secret_path of
        None \<Rightarrow> (Inl ValueError, db)
      | Some sp \<Rightarrow>
          if sp = [] \<or> isspace sp then (Inl ValueError, db)
          else
            (let path = split CHR ''/'' sp
             in if length path > 1 then
                  (let path1 = nonempty_items path
                   in case walk path1 path1 [] None 0 db of
                        (parent_group, db1) \<Rightarrow>
                          write_nested db1 db_path path1 parent_group usr pwd link cprops force)
                else if length path = 1 then
                  write_root db db_path path usr pwd link cprops force
                else (Inr (None, False), db)))"

section \<open>secret\_reader\<close>

text \<open>\<open>secret_to_dic\<close>: the pieces of the split are looked up as they are.\<close>

definition secret_to_dic :: "PyKeePass \<Rightarrow> string option \<Rightarrow> (error + secret) \<times> PyKeePass" where
  "secret_to_dic db secret_path =
     (case secret_path of
        None \<Rightarrow> (Inl ValueError, db)
      | Some sp \<Rightarrow>
          if sp = [] \<or> isspace sp then (Inl ValueError, db)
          else
            (let path = split CHR ''/'' sp
             in case find_entries_by_path db path of
                  (None, db1) \<Rightarrow> (Inr [], db1)
                | (Some e, db1) \<Rightarrow>
                    (case entry_at (tree db1) e of
                       None \<Rightarrow> (Inl StaleReference, db1)
                     | Some x \<Rightarrow>
                         if path = [] then (Inl IndexError, db1)
                         else (Inr [(last path, secret_fields x)], db1))))"

section \<open>group\_reader\<close>

text \<open>\<open>group.entries\<close>: the references of the group's direct entries, in order.\<close>

definition group_entries :: "group \<Rightarrow> gref \<Rightarrow> eref list" where
  "group_entries t r =
     (case group_at t r of
        None \<Rightarrow> []
      | Some g \<Rightarrow> map (\<lambda>i. (r, i)) [0..<length (entries g)])"

text \<open>Lines 167-183: the loop over the entries of the group.\<close>

fun read_entries ::
  "PyKeePass \<Rightarrow> eref list \<Rightarrow> secret list \<Rightarrow> (error + secret list) \<times> PyKeePass" where
  "read_entries db [] group_secrets = (Inr group_secrets, db)"
| "read_entries db (entry # rest) group_secrets =
     (case find_entries_by_path db (entry_path (tree db) entry) of
        (None, db1) \<Rightarrow> read_entries db1 rest group_secrets
      | (Some e, db1) \<Rightarrow>
          (case entry_at (tree db1) e of
             None \<Rightarrow> (Inl StaleReference, db1)
           | Some x \<Rightarrow>
               if entry_path (tree db1) e = [] then (Inl IndexError, db1)
               else read_entries db1 rest
                      (group_secrets @ [[(last (entry_path (tree db1) e), secret_fields x)]])))"

definition group_to_dic :: "PyKeePass \<Rightarrow> string option \<Rightarrow> (error + secret list) \<times> PyKeePass" where
  "group_to_dic db group_path =
     (case group_path of
        None \<Rightarrow> (Inl ValueError, db)
      | Some gp \<Rightarrow>
          if gp = [] \<or> isspace gp then (Inl ValueError, db)
          else
            (let path = split CHR ''/'' gp
             in if length path > 0 then
                  (case find_groups db (nonempty_items path) of
                     (None, db1) \<Rightarrow> (Inr [], db1)
                   | (Some g, db1) \<Rightarrow> read_entries db1 (group_entries (tree db1) g) [])
                else (Inr [], db)))"

section \<open>Notions of the specification\<close>

text \<open>A path string is blank when it is null, empty or whitespace-only.\<close>

definition blank :: "string option \<Rightarrow> bool" where
  "blank p = (case p of None \<Rightarrow> True | Some s \<Rightarrow> s = [] \<or> isspace s)"

text \<open>The segments of a path string: split on the slash, empty pieces discarded.\<close>

definition segments :: "string \<Rightarrow> string list" where
  "segments s = nonempty_items (split CHR ''/'' s)"

text \<open>The calls that only look something up.\<close>

fun is_lookup :: "call \<Rightarrow> bool" where
  "is_lookup (FindGroups p) = True"
| "is_lookup (FindEntriesByPath p) = True"
| "is_lookup c = False"

text \<open>The calls that change an entry of the store.\<close>

fun is_entry_mutation :: "call \<Rightarrow> bool" where
  "is_entry_mutation (AddEntry g t) = True"
| "is_entry_mutation (DeleteEntry e) = True"
| "is_entry_mutation (SetCustomProperty e k v) = True"
| "is_entry_mutation c = False"

fun is_save :: "call \<Rightarrow> bool" where
  "is_save (Save p) = True"
| "is_save c = False"

text \<open>
  Nothing is renamed or moved between two trees: every group of the first is found in
  the second under the same reference, with the same name, the same entries and the
  same names on the way down from the root.
\<close>

definition kept :: "group \<Rightarrow> group \<Rightarrow> bool" where
  "kept t t' =
     (\<forall>r g. group_at t r = Some g \<longrightarrow>
        (\<exists>g'. group_at t' r = Some g' \<and> name g' = name g \<and> entries g' = entries g
              \<and> names_along t' r = names_along t r))"

text \<open>The intermediate groups of a path all exist: every proper, non-empty prefix
  of the path is found by the group lookup.\<close>

definition intermediate_groups_exist :: "group \<Rightarrow> string list \<Rightarrow> bool" where
  "intermediate_groups_exist t path =
     list_all (\<lambda>k. first_match (group_matches t (take k path)) \<noteq> None) [1..<length path]"

text \<open>The custom properties handed to \<open>secret_write\<close>: none when the argument is
  \<open>None\<close>.\<close>

definition new_properties :: "(string \<times> string) list option \<Rightarrow> (string \<times> string) list" where
  "new_properties cprops = (case cprops of None \<Rightarrow> [] | Some cp \<Rightarrow> cp)"

text \<open>
  The persistence discipline, on the calls \<open>cs\<close> that one run of \<open>secret_write\<close> makes
  and its outcome \<open>res\<close>. A run that returns \<open>changed = True\<close> has changed an entry and
  then called \<open>save\<close> on \<open>db_path\<close>, exactly once, as its last call. A run that returns
  \<open>changed = False\<close> has neither changed an entry nor called \<open>save\<close>. A run that raises
  has not called \<open>save\<close>.
\<close>

definition disciplined :: "string \<Rightarrow> error + secret option \<times> bool \<Rightarrow> call list \<Rightarrow> bool" where
  "disciplined db_path res cs =
     (case res of
        Inl err \<Rightarrow> list_all (\<lambda>c. \<not> is_save c) cs
      | Inr (s, changed) \<Rightarrow>
          if changed
          then cs \<noteq> [] \<and> last cs = Save db_path
               \<and> list_all (\<lambda>c. \<not> is_save c) (butlast cs)
               \<and> list_ex is_entry_mutation (butlast cs)
          else list_all (\<lambda>c. \<not> is_save c \<and> \<not> is_entry_mutation c) cs)"

text \<open>
  The bulk read of a group in the words of the specification: nothing when no group
  is found at the path; otherwise, for each direct entry of the group in the store's
  order, the entry is resolved again by its own path, skipped when that fails, and
  the record of the resolved entry, keyed by its title, is added.
\<close>

definition secret_record :: "entry \<Rightarrow> secret" where
  "secret_record x = [(title x, secret_fields x)]"

definition reresolve :: "group \<Rightarrow> eref \<Rightarrow> entry option" where
  "reresolve t e =
     (case first_match (entry_matches t (entry_path t e)) of
        None \<Rightarrow> None
      | Some e' \<Rightarrow> entry_at t e')"

definition readGroup :: "group \<Rightarrow> string list \<Rightarrow> secret list" where
  "readGroup t path =
     (case first_match (group_matches t path) of
        None \<Rightarrow> []
      | Some r \<Rightarrow>
          List.map_filter (\<lambda>e. map_option secret_record (reresolve t e)) (group_entries t r))"

section \<open>Example stores\<close>

definition empty_store :: PyKeePass where
  "empty_store = \<lparr>tree = Group ''Root'' [] [], calls = []\<rparr>"

definition solo_store :: PyKeePass where
  "solo_store =
     \<lparr>tree = Group ''Root''
        [\<lparr>title = ''solo'', username = Some ''old'', password = Some ''secret'',
          url = None, custom_properties = [(''colour'', ''red'')]\<rparr>] [],
      calls = []\<rparr>"

definition nested_store :: PyKeePass where
  "nested_store =
     \<lparr>tree = Group ''Root'' []
        [Group ''a'' []
           [Group ''b''
              [\<lparr>title = ''c'', username = Some ''u'', password = Some ''p'', url = None,
                custom_properties = [(''username'', ''shadow''), (''colour'', ''red'')]\<rparr>,
               \<lparr>title = ''d'', username = None, password = Some ''q'', url = None,
                custom_properties = []\<rparr>]
              [Group ''deep'' [] []]]],
      calls = []\<rparr>"

text \<open>The first entry of group \<open>b\<close> in \<open>nested_store\<close>: its custom property
  \<open>username\<close> differs from its username field.\<close>

definition entry_c :: entry where
  "entry_c = \<lparr>title = ''c'', username = Some ''u'', password = Some ''p'', url = None,
               custom_properties = [(''username'', ''shadow''), (''colour'', ''red'')]\<rparr>"

text \<open>A store whose group \<open>a\<close> holds an entry titled \<open>a\<close> beside the entry
  \<open>c\<close>.\<close>

definition clash_store :: PyKeePass where
  "clash_store =
     \<lparr>tree = Group ''Root'' []
        [Group ''a''
           [\<lparr>title = ''a'', username = Some ''u'', password = None, url = None,
             custom_properties = []\<rparr>,
            \<lparr>title = ''c'', username = Some ''old'', password = Some ''secret'', url = None,
             custom_properties = []\<rparr>]
           []],
      calls = []\<rparr>"

section \<open>Paths\<close>

lemma split_nonempty: "split sep s \<noteq> []"
  by (cases s) (auto split: list.splits)

section \<open>Behaviour at concrete inputs\<close>

text \<open>
  C1. Writing \<open>/a/b/c\<close> with username \<open>u\<close> and password \<open>p\<close> into the empty store
  and reading \<open>/a/b/c\<close> back. The write answers with the record keyed \<open>c\<close>, but it
  has created the entry under the groups \<open>a\<close>, \<open>b\<close> with the title \<open>a\<close> (the first
  segment, line 314), and the reader looks up the unfiltered pieces of the split,
  which start with an empty one (line 134): the read returns the empty dict.
\<close>

theorem write_then_read_nested:
  "(case secret_write (Some ''/a/b/c'') empty_store ''keys.kdbx''
           (Some ''u'') (Some ''p'') None None False of
      (written, db) \<Rightarrow>
        written = Inr (Some [(''c'', [(''username'', ''u''), (''password'', ''p'')])], True)
        \<and> tree db =
            Group ''Root'' []
              [Group ''a'' []
                 [Group ''b''
                    [\<lparr>title = ''a'', username = Some ''u'', password = Some ''p'',
                      url = None, custom_properties = []\<rparr>] []]]
        \<and> fst (secret_to_dic db (Some ''/a/b/c'')) = Inr []
        \<and> calls (snd (secret_to_dic db (Some ''/a/b/c'')))
            = calls db @ [FindEntriesByPath [[], ''a'', ''b'', ''c'']])"
  by code_simp

text \<open>
  C2. Writing \<open>/solo\<close> into the empty store. The split has two pieces, so the
  path is filtered and walked instead of taking the root branch; the walk stops at its
  only segment with no parent group, and \<open>add_entry\<close> is called without a
  destination group. No entry is created.
\<close>

theorem root_level_write_with_slash:
  "secret_write (Some ''/solo'') empty_store ''keys.kdbx'' (Some ''u'') (Some ''p'') None None False
     = (Inl AttributeError,
        \<lparr>tree = Group ''Root'' [] [],
         calls = [FindEntriesByPath [''solo''], AddEntry None ''solo'']\<rparr>)"
  by code_simp

text \<open>
  C3. The pieces of \<open>/a//b/\<close> that each module hands to the store: the writer and
  the group reader look up \<open>a\<close>, \<open>b\<close>; the secret reader looks up the five pieces
  of the split, empty ones included.
\<close>

theorem empty_segments_per_module:
  "calls (snd (group_to_dic empty_store (Some ''/a//b/''))) = [FindGroups [''a'', ''b'']]
   \<and> take 1 (calls (snd (secret_write (Some ''/a//b/'') empty_store ''keys.kdbx''
                          None None None None False))) = [FindGroups [''a'']]
   \<and> calls (snd (secret_to_dic empty_store (Some ''/a//b/'')))
       = [FindEntriesByPath [[], ''a'', [], ''b'', []]]"
  by code_simp

text \<open>
  C6. Forced write of \<open>/solo\<close> into a store whose root group holds the entry
  \<open>solo\<close>: the entry is deleted, then \<open>add_entry\<close> is called without a destination
  group and fails. Nothing is created, nothing is saved, no result is returned.
\<close>

theorem forced_overwrite_with_slash:
  "secret_write (Some ''/solo'') solo_store ''keys.kdbx'' (Some ''u'') (Some ''p'') None None True
     = (Inl AttributeError,
        \<lparr>tree = Group ''Root'' [] [],
         calls = [FindEntriesByPath [''solo''], DeleteEntry ([], 0), AddEntry None ''solo'']\<rparr>)"
  by code_simp

lemma split_no_sep: "sep \<notin> set s \<Longrightarrow> split sep s = [s]"
  by (induction s) auto

lemma split_with_sep: "sep \<in> set s \<Longrightarrow> length (split sep s) > 1"
proof (induction s)
  case Nil
  then show ?case by simp
next
  case (Cons c cs)
  show ?case
  proof (cases "c = sep")
    case True
    then show ?thesis using split_nonempty [of sep cs] by (cases "split sep cs") auto
  next
    case False
    with Cons show ?thesis by (cases "split sep cs") auto
  qed
qed

lemma split_single:
  assumes "length (split sep s) = 1"
  shows "split sep s = [s]"
proof (cases "sep \<in> set s")
  case True
  from split_with_sep [OF True] assms show ?thesis by simp
next
  case False
  then show ?thesis by (rule split_no_sep)
qed

lemma blank_write: "blank p \<Longrightarrow> secret_write p db f u pw l cp force = (Inl ValueError, db)"
  by (auto simp: blank_def secret_write_def split: option.splits)

lemma blank_read: "blank p \<Longrightarrow> secret_to_dic db p = (Inl ValueError, db)"
  by (auto simp: blank_def secret_to_dic_def split: option.splits)

lemma blank_group: "blank p \<Longrightarrow> group_to_dic db p = (Inl ValueError, db)"
  by (auto simp: blank_def group_to_dic_def split: option.splits)

section \<open>Invalid paths\<close>

text \<open>
  C4, as the code has it. Each of the three operations raises \<open>ValueError\<close> (the
  specification's \<open>InvalidPathError\<close>) when the path string is null, empty or
  whitespace-only, and it does so before any call to the store: the store is returned
  as it was given, record of calls included.
\<close>

theorem blank_path_rejected:
  assumes "blank p"
  shows "secret_write p db db_path usr pwd link cprops force = (Inl ValueError, db)
         \<and> secret_to_dic db p = (Inl ValueError, db)
         \<and> group_to_dic db p = (Inl ValueError, db)"
  using assms by (simp add: blank_write blank_read blank_group)

theorem blank_path_rejected_witness:
  "blank (Some [CHR '' '', CHR 0x09])
   \<and> secret_write (Some [CHR '' '', CHR 0x09]) solo_store ''keys.kdbx'' (Some ''u'') None None None True
       = (Inl ValueError, solo_store)
   \<and> secret_to_dic solo_store (Some [CHR '' '', CHR 0x09]) = (Inl ValueError, solo_store)
   \<and> group_to_dic solo_store (Some [CHR '' '', CHR 0x09]) = (Inl ValueError, solo_store)"
proof -
  have h: "blank (Some [CHR '' '', CHR 0x09])" by code_simp
  from blank_path_rejected [OF h] h show ?thesis by blast
qed

text \<open>
  C4, as stated, fails for a path string that is not blank but has no segment left
  after filtering. For \<open>/\<close> no operation raises before calling the store: the secret
  reader and the group reader return an empty result after a lookup, and the writer
  fails with \<open>IndexError\<close> only after its entry lookup.
\<close>

theorem zero_segments_not_rejected:
  "\<not> blank (Some ''/'') \<and> segments ''/'' = []
   \<and> secret_to_dic empty_store (Some ''/'')
       = (Inr [], empty_store\<lparr>calls := [FindEntriesByPath [[], []]]\<rparr>)
   \<and> group_to_dic empty_store (Some ''/'')
       = (Inr [], empty_store\<lparr>calls := [FindGroups []]\<rparr>)
   \<and> secret_write (Some ''/'') empty_store ''keys.kdbx'' None None None None False
       = (Inl IndexError, empty_store\<lparr>calls := [FindEntriesByPath []]\<rparr>)"
  by code_simp


section \<open>Lookup in the store\<close>

lemma group_at_snoc:
  "group_at t (r @ [i]) =
     (case group_at t r of
        None \<Rightarrow> None
      | Some g \<Rightarrow> if i < length (subgroups g) then Some (subgroups g ! i) else None)"
  by (induction r arbitrary: t) auto

lemma names_along_snoc:
  "group_at t r = Some g \<Longrightarrow> i < length (subgroups g) \<Longrightarrow>
     names_along t (r @ [i]) = names_along t r @ [name (subgroups g ! i)]"
  by (induction r arbitrary: t) (auto split: if_splits)

lemma names_along_length: "group_at t r = Some g \<Longrightarrow> length (names_along t r) = length r"
  by (induction r arbitrary: t) (auto split: if_splits)

lemma foldl_front_empty:
  "foldl (\<lambda>front s. concat (map (children_named t s) front)) [] path = []"
  by (induction path) auto

lemma group_matches_snoc:
  "group_matches t (path @ [s]) = concat (map (children_named t s) (group_matches t path))"
  by (simp add: group_matches_def)

lemma group_matches_Nil: "group_matches t [] = [[]]"
  by (simp add: group_matches_def root_group_def)

lemma group_matches_prefix:
  "group_matches t (xs @ ys) \<noteq> [] \<Longrightarrow> group_matches t xs \<noteq> []"
  by (auto simp: group_matches_def foldl_front_empty)

lemma group_matches_take:
  "group_matches t path \<noteq> [] \<Longrightarrow> group_matches t (take k path) \<noteq> []"
  using group_matches_prefix [of t "take k path" "drop k path"] by simp

lemma group_matches_valid:
  "r \<in> set (group_matches t path) \<Longrightarrow>
     \<exists>g. group_at t r = Some g \<and> names_along t r = path"
proof (induction path arbitrary: r rule: rev_induct)
  case Nil
  then show ?case by (simp add: group_matches_Nil)
next
  case (snoc s path)
  from snoc.prems obtain q where q: "q \<in> set (group_matches t path)"
    and r: "r \<in> set (children_named t s q)"
    by (auto simp: group_matches_snoc)
  from snoc.IH [OF q] obtain g where g: "group_at t q = Some g" "names_along t q = path"
    by blast
  from r g obtain i where i: "r = q @ [i]" "i < length (subgroups g)" "name (subgroups g ! i) = s"
    by (auto simp: children_named_def)
  then show ?case using g by (simp add: group_at_snoc names_along_snoc)
qed

lemma first_match_Some: "first_match xs = Some x \<Longrightarrow> x \<in> set xs"
  by (auto simp: first_match_def split: list.splits)

lemma first_match_None: "first_match xs = None \<longleftrightarrow> xs = []"
  by (auto simp: first_match_def split: list.splits)

lemma entry_matches_valid:
  assumes "e \<in> set (entry_matches t path)" "path \<noteq> []"
  shows "\<exists>g. group_at t (fst e) = Some g \<and> snd e < length (entries g)
            \<and> title (entries g ! snd e) = last path
            \<and> names_along t (fst e) = butlast path"
proof -
  from assms obtain q where q: "q \<in> set (group_matches t (butlast path))"
    and e: "e \<in> set (entries_titled t (last path) q)"
    by (auto simp: entry_matches_def)
  from group_matches_valid [OF q] obtain g where "group_at t q = Some g" "names_along t q = butlast path"
    by blast
  with e show ?thesis by (auto simp: entries_titled_def)
qed

lemma entry_matches_groups:
  "entry_matches t path \<noteq> [] \<Longrightarrow> group_matches t (butlast path) \<noteq> []"
  by (auto simp: entry_matches_def)

lemma entry_matches_entry_at:
  assumes "e \<in> set (entry_matches t path)" "path \<noteq> []"
  shows "\<exists>x. entry_at t e = Some x \<and> title x = last path \<and> entry_path t e = path"
  using entry_matches_valid [OF assms] assms(2)
  by (auto simp: entry_at_def entry_path_def)

lemma group_entry_rematches:
  assumes "r \<in> set (group_matches t path)" "group_at t r = Some g" "i < length (entries g)"
  shows "(r, i) \<in> set (entry_matches t (path @ [title (entries g ! i)]))"
proof -
  have "(r, i) \<in> set (entries_titled t (title (entries g ! i)) r)"
    using assms(2,3) by (simp add: entries_titled_def)
  with assms(1) show ?thesis by (auto simp: entry_matches_def)
qed


section \<open>The walk\<close>

lemma find_groups_eq:
  "find_groups db p = (first_match (group_matches (tree db) p), db\<lparr>calls := calls db @ [FindGroups p]\<rparr>)"
  by (simp add: find_groups_def)

lemma calls_append_twice:
  "(db\<lparr>calls := calls db @ cs\<rparr>)\<lparr>calls := calls (db\<lparr>calls := calls db @ cs\<rparr>) @ cs'\<rparr>
     = db\<lparr>calls := calls db @ (cs @ cs')\<rparr>"
  by simp

lemma walk_found:
  "\<not> (item = path ! (length path - 1) \<and> i = length path - 1) \<Longrightarrow>
   first_match (group_matches (tree db) (group_path @ [item])) = Some g \<Longrightarrow>
   walk path (item # items) group_path parent i db
     = walk path items (group_path @ [item]) (Some g) (i + 1)
         (db\<lparr>calls := calls db @ [FindGroups (group_path @ [item])]\<rparr>)"
  by (auto simp: find_groups_eq)

lemma walk_missing:
  "\<not> (item = path ! (length path - 1) \<and> i = length path - 1) \<Longrightarrow>
   first_match (group_matches (tree db) (group_path @ [item])) = None \<Longrightarrow>
   walk path (item # items) group_path parent i db
     = walk path items (group_path @ [item])
         (Some (fst (add_group (db\<lparr>calls := calls db @ [FindGroups (group_path @ [item])]\<rparr>)
                  (case parent of None \<Rightarrow> root_group | Some p \<Rightarrow> p) item)))
         (i + 1)
         (snd (add_group (db\<lparr>calls := calls db @ [FindGroups (group_path @ [item])]\<rparr>)
                  (case parent of None \<Rightarrow> root_group | Some p \<Rightarrow> p) item))"
  by (auto simp: find_groups_eq split: prod.splits)

lemma walk_all_found:
  assumes "path = group_path @ items" "i = length group_path"
    and "group_matches (tree db) (butlast path) \<noteq> []"
  shows "\<exists>cs. walk path items group_path parent i db
           = (if length items \<le> 1 then parent
              else first_match (group_matches (tree db) (butlast path)),
              db\<lparr>calls := calls db @ cs\<rparr>)
           \<and> list_all is_lookup cs"
  using assms
proof (induction items arbitrary: group_path parent i db)
  case Nil
  show ?case by (intro exI [of _ "[]"]) simp
next
  case (Cons item rest)
  show ?case
  proof (cases "rest = []")
    case True
    with Cons.prems have "walk path (item # rest) group_path parent i db = (parent, db)"
      by (simp add: nth_append)
    then show ?thesis using True by (intro exI [of _ "[]"]) simp
  next
    case False
    let ?gp = "group_path @ [item]"
    let ?db1 = "db\<lparr>calls := calls db @ [FindGroups ?gp]\<rparr>"
    from False Cons.prems have nb: "i \<noteq> length path - 1"
      by (cases rest) auto
    have tk: "take (Suc (length group_path)) (butlast path) = ?gp"
      using False Cons.prems(1) by (cases rest) (auto simp: butlast_append)
    from group_matches_take [OF Cons.prems(3), of "Suc (length group_path)"]
    have ne: "group_matches (tree db) ?gp \<noteq> []" unfolding tk .
    then obtain g where g: "first_match (group_matches (tree db) ?gp) = Some g"
      by (cases "group_matches (tree db) ?gp") (auto simp: first_match_def)
    have step: "walk path (item # rest) group_path parent i db
                 = walk path rest ?gp (Some g) (i + 1) ?db1"
      by (rule walk_found) (use nb g in auto)
    have "\<exists>cs. walk path rest ?gp (Some g) (i + 1) ?db1
           = (if length rest \<le> 1 then Some g
              else first_match (group_matches (tree ?db1) (butlast path)),
              ?db1\<lparr>calls := calls ?db1 @ cs\<rparr>)
           \<and> list_all is_lookup cs"
      by (rule Cons.IH) (use Cons.prems in auto)
    then obtain cs where cs: "walk path rest ?gp (Some g) (i + 1) ?db1
           = (if length rest \<le> 1 then Some g
              else first_match (group_matches (tree db) (butlast path)),
              db\<lparr>calls := calls db @ ([FindGroups ?gp] @ cs)\<rparr>)"
      and lk: "list_all is_lookup cs"
      by auto
    have res: "(if length rest \<le> 1 then Some g
                else first_match (group_matches (tree db) (butlast path)))
               = first_match (group_matches (tree db) (butlast path))"
    proof (cases "length rest \<le> 1")
      case True
      with False obtain x where "rest = [x]" by (cases rest) auto
      with Cons.prems(1) have "butlast path = ?gp" by (simp add: butlast_append)
      with g True show ?thesis by simp
    next
      case False
      then show ?thesis by simp
    qed
    have "list_all is_lookup ([FindGroups ?gp] @ cs)" using lk by simp
    moreover have "\<not> length (item # rest) \<le> 1" using False by (cases rest) auto
    ultimately show ?thesis using step cs res
      by (intro exI [of _ "[FindGroups ?gp] @ cs"]) (simp del: walk.simps)
  qed
qed

lemma kept_refl: "kept t t"
  by (simp add: kept_def)

lemma kept_trans:
  assumes "kept t t'" "kept t' t''"
  shows "kept t t''"
  unfolding kept_def
proof (intro allI impI)
  fix r g
  assume "group_at t r = Some g"
  with assms(1) obtain g' where g': "group_at t' r = Some g'" "name g' = name g"
    "entries g' = entries g" "names_along t' r = names_along t r"
    unfolding kept_def by blast
  from assms(2) g'(1) obtain g'' where "group_at t'' r = Some g''" "name g'' = name g'"
    "entries g'' = entries g'" "names_along t'' r = names_along t' r"
    unfolding kept_def by blast
  with g' show "\<exists>h. group_at t'' r = Some h \<and> name h = name g \<and> entries h = entries g
                  \<and> names_along t'' r = names_along t r"
    by simp
qed

lemma append_group_sel:
  "name (append_group s g) = name g" "entries (append_group s g) = entries g"
  "subgroups (append_group s g) = subgroups g @ [Group s [] []]"
  by (simp_all add: append_group_def)

lemma update_at_append_group_kept:
  "group_at t q = Some g \<Longrightarrow>
     \<exists>g'. group_at (update_at r (append_group s) t) q = Some g' \<and> name g' = name g
          \<and> entries g' = entries g
          \<and> names_along (update_at r (append_group s) t) q = names_along t q"
proof (induction r arbitrary: t q g)
  case Nil
  then show ?case
    by (cases q) (auto simp: append_group_sel nth_append split: if_splits)
next
  case (Cons j r)
  note IH = Cons.IH and prems = Cons.prems
  show ?case
  proof (cases "j < length (subgroups t)")
    case False
    with prems show ?thesis by simp
  next
    case j: True
    let ?u = "update_at r (append_group s) (subgroups t ! j)"
    have root: "name ?u = name (subgroups t ! j)"
      using IH [where q = "[]" and t = "subgroups t ! j" and g = "subgroups t ! j"] by simp
    show ?thesis
    proof (cases q)
      case Nil
      with prems j show ?thesis by auto
    next
      case q: (Cons i q')
      with prems have i: "i < length (subgroups t)" and
        g: "group_at (subgroups t ! i) q' = Some g"
        by (auto split: if_splits)
      show ?thesis
      proof (cases "i = j")
        case True
        from IH [OF g [unfolded True]] root j
        show ?thesis using q True by auto
      next
        case False
        with i g j show ?thesis using q by auto
      qed
    qed
  qed
qed

lemma add_group_kept: "kept (tree db) (tree (snd (add_group db r s)))"
  by (simp add: kept_def add_group_def update_at_append_group_kept)

lemma walk_kept: "kept (tree db) (tree (snd (walk path items group_path parent i db)))"
proof (induction items arbitrary: group_path parent i db)
  case Nil
  then show ?case by (simp add: kept_refl)
next
  case (Cons item rest)
  show ?case
  proof (cases "item = path ! (length path - 1) \<and> i = length path - 1")
    case True
    then show ?thesis by (simp add: kept_refl)
  next
    case False
    let ?gp = "group_path @ [item]"
    let ?db1 = "db\<lparr>calls := calls db @ [FindGroups ?gp]\<rparr>"
    show ?thesis
    proof (cases "first_match (group_matches (tree db) ?gp)")
      case None
      let ?p = "case parent of None \<Rightarrow> root_group | Some p \<Rightarrow> p"
      have step: "walk path (item # rest) group_path parent i db
              = walk path rest ?gp (Some (fst (add_group ?db1 ?p item))) (i + 1)
                  (snd (add_group ?db1 ?p item))"
        using False None by (rule walk_missing)
      have k1: "kept (tree db) (tree (snd (add_group ?db1 ?p item)))"
        using add_group_kept [of ?db1 ?p item] by simp
      have k2: "kept (tree (snd (add_group ?db1 ?p item)))
                  (tree (snd (walk path rest ?gp (Some (fst (add_group ?db1 ?p item))) (i + 1)
                    (snd (add_group ?db1 ?p item)))))"
        by (rule Cons.IH)
      show ?thesis unfolding step by (rule kept_trans [OF k1 k2])
    next
      case (Some g)
      have step: "walk path (item # rest) group_path parent i db
              = walk path rest ?gp (Some g) (i + 1) ?db1"
        using False Some by (rule walk_found)
      have k1: "kept (tree db) (tree ?db1)" by (simp add: kept_refl)
      have k2: "kept (tree ?db1) (tree (snd (walk path rest ?gp (Some g) (i + 1) ?db1)))"
        by (rule Cons.IH)
      show ?thesis unfolding step by (rule kept_trans [OF k1 k2])
    qed
  qed
qed


lemma find_entries_by_path_eq:
  "find_entries_by_path db p
     = (first_match (entry_matches (tree db) p), db\<lparr>calls := calls db @ [FindEntriesByPath p]\<rparr>)"
  by (simp add: find_entries_by_path_def)

lemma convert_entry_found:
  "entry_at (tree db) e = Some x \<Longrightarrow> path \<noteq> [] \<Longrightarrow>
     convert_entry db path e changed = Inr (Some [(last path, secret_fields x)], changed)"
  by (simp add: convert_entry_def convert_secret_to_dic_def)

lemma write_root_existing_unforced:
  assumes "first_match (entry_matches (tree db) path) = Some e" "path \<noteq> []"
  shows "\<exists>x. entry_at (tree db) e = Some x
           \<and> write_root db db_path path usr pwd link cprops False
               = (Inr (Some [(last path, secret_fields x)], False),
                  db\<lparr>calls := calls db @ [FindEntriesByPath path]\<rparr>)"
proof -
  from entry_matches_entry_at [OF first_match_Some [OF assms(1)] assms(2)]
  obtain x where x: "entry_at (tree db) e = Some x" by blast
  then show ?thesis using assms
    by (simp add: write_root_def find_entries_by_path_eq convert_entry_found)
qed

lemma write_nested_existing_unforced:
  assumes "first_match (entry_matches (tree db) path) = Some e" "path \<noteq> []"
  shows "\<exists>x. entry_at (tree db) e = Some x
           \<and> write_nested db db_path path parent usr pwd link cprops False
               = (Inr (Some [(last path, secret_fields x)], False),
                  db\<lparr>calls := calls db @ [FindEntriesByPath path]\<rparr>)"
proof -
  from entry_matches_entry_at [OF first_match_Some [OF assms(1)] assms(2)]
  obtain x where x: "entry_at (tree db) e = Some x" by blast
  then show ?thesis using assms
    by (simp add: write_nested_def find_entries_by_path_eq convert_entry_found)
qed

lemma secret_write_existing_unforced:
  assumes nb: "\<not> blank (Some sp)" and ne: "segments sp \<noteq> []"
    and found: "first_match (entry_matches (tree db) (segments sp)) = Some e"
  shows "\<exists>x cs. entry_at (tree db) e = Some x
           \<and> secret_write (Some sp) db db_path usr pwd link cprops False
               = (Inr (Some [(last (segments sp), secret_fields x)], False),
                  db\<lparr>calls := calls db @ cs\<rparr>)
           \<and> list_all is_lookup cs"
proof (cases "length (split CHR ''/'' sp) > 1")
  case True
  let ?path = "segments sp"
  from found have "entry_matches (tree db) ?path \<noteq> []"
    by (auto simp: first_match_def)
  then have "group_matches (tree db) (butlast ?path) \<noteq> []"
    by (rule entry_matches_groups)
  from walk_all_found [of ?path "[]" ?path 0 db None, OF _ _ this]
  obtain cs parent where w: "walk ?path ?path [] None 0 db = (parent, db\<lparr>calls := calls db @ cs\<rparr>)"
    and lk: "list_all is_lookup cs"
    by auto
  let ?db1 = "db\<lparr>calls := calls db @ cs\<rparr>"
  let ?parent = parent
  from found have "first_match (entry_matches (tree ?db1) ?path) = Some e" by simp
  from write_nested_existing_unforced [OF this ne, of db_path ?parent usr pwd link cprops]
  obtain x where x: "entry_at (tree db) e = Some x"
    and wn: "write_nested ?db1 db_path ?path ?parent usr pwd link cprops False
               = (Inr (Some [(last ?path, secret_fields x)], False),
                  db\<lparr>calls := calls db @ (cs @ [FindEntriesByPath ?path])\<rparr>)"
    by auto
  have "secret_write (Some sp) db db_path usr pwd link cprops False
          = write_nested ?db1 db_path ?path ?parent usr pwd link cprops False"
    using nb True w [unfolded segments_def]
    by (simp add: secret_write_def blank_def segments_def del: walk.simps)
  with wn x lk show ?thesis
    by (intro exI [of _ x] exI [of _ "cs @ [FindEntriesByPath ?path]"]) simp
next
  case False
  with split_nonempty [of "CHR ''/''" sp] have one: "length (split CHR ''/'' sp) = 1"
    by (cases "split CHR ''/'' sp") auto
  then have sp: "split CHR ''/'' sp = [sp]" by (rule split_single)
  from nb have "sp \<noteq> []" by (simp add: blank_def)
  with sp have seg: "segments sp = [sp]" by (simp add: segments_def nonempty_items_def)
  from write_root_existing_unforced [OF found ne, of db_path usr pwd link cprops]
  obtain x where x: "entry_at (tree db) e = Some x"
    and wr: "write_root db db_path [sp] usr pwd link cprops False
               = (Inr (Some [(last (segments sp), secret_fields x)], False),
                  db\<lparr>calls := calls db @ [FindEntriesByPath [sp]]\<rparr>)"
    by (auto simp: seg)
  have "secret_write (Some sp) db db_path usr pwd link cprops False
          = write_root db db_path [sp] usr pwd link cprops False"
    using nb sp by (simp add: secret_write_def blank_def)
  with wr x show ?thesis
    by (intro exI [of _ x] exI [of _ "[FindEntriesByPath [sp]]"]) simp
qed

section \<open>No-clobber\<close>

text \<open>
  C5. When the path string is valid and the store holds an entry at its segments,
  \<open>secret_write\<close> with \<open>force = False\<close> returns the record of that entry, keyed by
  the last segment, with \<open>changed = False\<close>. The store it leaves is the store it was
  given with lookups added to the record of calls: no group or entry is created,
  deleted or changed, and \<open>save\<close> is not called.
\<close>

theorem no_clobber:
  assumes "\<not> blank (Some sp)" and "segments sp \<noteq> []"
    and "first_match (entry_matches (tree db) (segments sp)) = Some e"
  shows "\<exists>x cs. entry_at (tree db) e = Some x
           \<and> secret_write (Some sp) db db_path usr pwd link cprops False
               = (Inr (Some [(last (segments sp), secret_fields x)], False),
                  db\<lparr>calls := calls db @ cs\<rparr>)
           \<and> list_all is_lookup cs"
  using assms by (rule secret_write_existing_unforced)

theorem no_clobber_witness:
  "\<not> blank (Some ''/a/b/c'') \<and> segments ''/a/b/c'' \<noteq> []
   \<and> first_match (entry_matches (tree nested_store) (segments ''/a/b/c'')) = Some ([0, 0], 0)
   \<and> (\<exists>x cs. entry_at (tree nested_store) ([0, 0], 0) = Some x
         \<and> secret_write (Some ''/a/b/c'') nested_store ''keys.kdbx''
              (Some ''new'') (Some ''other'') None None False
             = (Inr (Some [(last (segments ''/a/b/c''), secret_fields x)], False),
                nested_store\<lparr>calls := calls nested_store @ cs\<rparr>)
         \<and> list_all is_lookup cs)"
proof -
  have h1: "\<not> blank (Some ''/a/b/c'')" by code_simp
  have h2: "segments ''/a/b/c'' \<noteq> []" by code_simp
  have h3: "first_match (entry_matches (tree nested_store) (segments ''/a/b/c'')) = Some ([0, 0], 0)"
    by code_simp
  from no_clobber [OF h1 h2 h3] h1 h2 h3 show ?thesis by blast
qed

section \<open>Materialization of the groups\<close>

lemma intermediate_deepest:
  assumes "2 \<le> length path" "intermediate_groups_exist t path"
  shows "group_matches t (butlast path) \<noteq> []"
proof -
  have "length path - 1 \<in> set [1..<length path]" using assms(1) by auto
  with assms(2) have "first_match (group_matches t (take (length path - 1) path)) \<noteq> None"
    unfolding intermediate_groups_exist_def list_all_iff by blast
  then show ?thesis by (auto simp: butlast_conv_take first_match_def)
qed

text \<open>
  C7. The walk of \<open>secret_write\<close> over a nested path whose intermediate groups all
  exist creates nothing: it leaves the store as it was, with only lookups added to the
  record of calls, and ends with the parent group equal to the group found at the
  path without its last segment. Whatever the path and the store, a run of the walk
  renames or moves no existing group.
\<close>

theorem materialization_idempotent:
  "(2 \<le> length path \<and> intermediate_groups_exist (tree db) path \<longrightarrow>
      (\<exists>g cs. first_match (group_matches (tree db) (butlast path)) = Some g
         \<and> walk path path [] None 0 db = (Some g, db\<lparr>calls := calls db @ cs\<rparr>)
         \<and> list_all is_lookup cs))
   \<and> kept (tree db) (tree (snd (walk path path [] None 0 db)))"
proof (intro conjI impI)
  assume a: "2 \<le> length path \<and> intermediate_groups_exist (tree db) path"
  then have ne: "group_matches (tree db) (butlast path) \<noteq> []"
    using intermediate_deepest by blast
  then obtain g where g: "first_match (group_matches (tree db) (butlast path)) = Some g"
    by (cases "group_matches (tree db) (butlast path)") (auto simp: first_match_def)
  from walk_all_found [of path "[]" path 0 db None, OF _ _ ne]
  obtain cs where "walk path path [] None 0 db
        = (if length path \<le> 1 then None
           else first_match (group_matches (tree db) (butlast path)),
           db\<lparr>calls := calls db @ cs\<rparr>)"
    and "list_all is_lookup cs"
    by auto
  with a g show "\<exists>g cs. first_match (group_matches (tree db) (butlast path)) = Some g
         \<and> walk path path [] None 0 db = (Some g, db\<lparr>calls := calls db @ cs\<rparr>)
         \<and> list_all is_lookup cs"
    by (intro exI [of _ g] exI [of _ cs]) (simp del: walk.simps)
next
  show "kept (tree db) (tree (snd (walk path path [] None 0 db)))"
    by (rule walk_kept)
qed

theorem materialization_idempotent_witness:
  "2 \<le> length [''a'', ''b'', ''c''] \<and> intermediate_groups_exist (tree nested_store) [''a'', ''b'', ''c'']
   \<and> (\<exists>g cs. first_match (group_matches (tree nested_store) (butlast [''a'', ''b'', ''c''])) = Some g
         \<and> walk [''a'', ''b'', ''c''] [''a'', ''b'', ''c''] [] None 0 nested_store
             = (Some g, nested_store\<lparr>calls := calls nested_store @ cs\<rparr>)
         \<and> list_all is_lookup cs)
   \<and> kept (tree nested_store)
        (tree (snd (walk [''a'', ''b'', ''c''] [''a'', ''b'', ''c''] [] None 0 nested_store)))"
proof -
  have h: "2 \<le> length [''a'', ''b'', ''c''] \<and> intermediate_groups_exist (tree nested_store) [''a'', ''b'', ''c'']"
    by code_simp
  from materialization_idempotent [of "[''a'', ''b'', ''c'']" nested_store] h
  show ?thesis by blast
qed


section \<open>Creating an entry\<close>

lemma group_at_update_at:
  "group_at t r = Some g \<Longrightarrow> group_at (update_at r f t) r = Some (f g)"
  by (induction r arbitrary: t) (auto split: if_splits)

lemma add_entry_calls:
  "calls (snd (add_entry db dest ttl usr pwd link fc)) = calls db @ [AddEntry dest ttl]"
  by (auto simp: add_entry_def Let_def split: option.splits)

lemma add_entry_Inr:
  assumes "add_entry db dest ttl usr pwd link fc = (Inr e, db1)"
  shows "entry_at (tree db1) e
           = Some \<lparr>title = ttl, username = usr, password = pwd, url = link, custom_properties = []\<rparr>"
  using assms
  by (auto simp: add_entry_def Let_def entry_at_def group_at_update_at append_entry_def
           split: option.splits if_splits)

lemma add_entry_Inl:
  "add_entry db dest ttl usr pwd link fc = (Inl err, db1) \<Longrightarrow> tree db1 = tree db"
  by (auto simp: add_entry_def Let_def split: option.splits if_splits)

lemma set_custom_property_entry:
  assumes "entry_at (tree db) e = Some x"
  shows "entry_at (tree (set_custom_property db e k v)) e
           = Some (x\<lparr>custom_properties := AList.update k v (custom_properties x)\<rparr>)"
  using assms
  by (auto simp: set_custom_property_def entry_at_def group_at_update_at set_property_def
           split: option.splits if_splits)

lemma apply_custom_properties_entry:
  "entry_at (tree db) e = Some x \<Longrightarrow>
     entry_at (tree (apply_custom_properties db e cp)) e
       = Some (x\<lparr>custom_properties :=
                  fold (\<lambda>(k, v). AList.update k v) cp (custom_properties x)\<rparr>)"
proof (induction cp arbitrary: db x)
  case Nil
  then show ?case by (simp add: apply_custom_properties_def)
next
  case (Cons kv cp)
  obtain k v where kv: "kv = (k, v)" by (cases kv)
  have "apply_custom_properties db e (kv # cp)
          = apply_custom_properties (set_custom_property db e k v) e cp"
    by (simp add: apply_custom_properties_def kv)
  with Cons.IH [OF set_custom_property_entry [OF Cons.prems, of k v]] show ?case
    by (simp add: kv)
qed

lemma apply_custom_properties_calls:
  "calls (apply_custom_properties db e cp)
     = calls db @ map (\<lambda>(k, v). SetCustomProperty e k v) cp"
proof (induction cp arbitrary: db)
  case Nil
  then show ?case by (simp add: apply_custom_properties_def)
next
  case (Cons kv cp)
  obtain k v where kv: "kv = (k, v)" by (cases kv)
  have "apply_custom_properties db e (kv # cp)
          = apply_custom_properties (set_custom_property db e k v) e cp"
    by (simp add: apply_custom_properties_def kv)
  with Cons.IH [of "set_custom_property db e k v"] show ?case
    by (simp add: kv set_custom_property_def)
qed

lemma create_entry_Inl:
  assumes "add_entry db dest ttl usr pwd link fc = (Inl err, db1)"
  shows "create_entry db db_path path dest ttl usr pwd link cprops fc
           = (Inl err, db\<lparr>calls := calls db @ [AddEntry dest ttl]\<rparr>)"
proof -
  have "calls db1 = calls db @ [AddEntry dest ttl]"
    using add_entry_calls [of db dest ttl usr pwd link fc] assms by simp
  moreover have "tree db1 = tree db" using assms by (rule add_entry_Inl)
  ultimately have "db1 = db\<lparr>calls := calls db @ [AddEntry dest ttl]\<rparr>" by simp
  with assms show ?thesis by (simp add: create_entry_def)
qed

lemma create_entry_Inr:
  assumes "add_entry db dest ttl usr pwd link fc = (Inr e, db1)" "path \<noteq> []"
  shows "\<exists>db'. create_entry db db_path path dest ttl usr pwd link cprops fc
           = (Inr (Some [(last path,
                 secret_fields \<lparr>title = ttl, username = usr, password = pwd, url = link,
                   custom_properties =
                     fold (\<lambda>(k, v). AList.update k v) (new_properties cprops) []\<rparr>)], True),
              db')
         \<and> calls db' = calls db @ [AddEntry dest ttl]
              @ map (\<lambda>(k, v). SetCustomProperty e k v) (new_properties cprops) @ [Save db_path]"
proof -
  let ?x = "\<lparr>title = ttl, username = usr, password = pwd, url = link, custom_properties = []\<rparr>"
  let ?db2 = "case cprops of None \<Rightarrow> db1 | Some cp \<Rightarrow> apply_custom_properties db1 e cp"
  have c1: "calls db1 = calls db @ [AddEntry dest ttl]"
    using add_entry_calls [of db dest ttl usr pwd link fc] assms by simp
  have db2: "?db2 = apply_custom_properties db1 e (new_properties cprops)"
    by (cases cprops) (simp_all add: new_properties_def apply_custom_properties_def)
  have e2: "entry_at (tree ?db2) e
          = Some (?x\<lparr>custom_properties :=
               fold (\<lambda>(k, v). AList.update k v) (new_properties cprops) []\<rparr>)"
    unfolding db2 using apply_custom_properties_entry [OF add_entry_Inr [OF assms(1)]] by simp
  have c2: "calls ?db2 = calls db1 @ map (\<lambda>(k, v). SetCustomProperty e k v) (new_properties cprops)"
    unfolding db2 by (rule apply_custom_properties_calls)
  have "create_entry db db_path path dest ttl usr pwd link cprops fc
          = (convert_entry (save ?db2 db_path) path e True, save ?db2 db_path)"
    using assms(1) by (simp add: create_entry_def Let_def)
  moreover have "convert_entry (save ?db2 db_path) path e True
      = Inr (Some [(last path,
                 secret_fields (?x\<lparr>custom_properties :=
               fold (\<lambda>(k, v). AList.update k v) (new_properties cprops) []\<rparr>))], True)"
    using e2 assms(2) by (simp add: convert_entry_found save_def)
  moreover have "calls (save ?db2 db_path) = calls db @ [AddEntry dest ttl]
              @ map (\<lambda>(k, v). SetCustomProperty e k v) (new_properties cprops) @ [Save db_path]"
    using c1 c2 by (simp add: save_def)
  ultimately show ?thesis by simp
qed


section \<open>Persistence\<close>

lemma disciplined_prefix:
  assumes "list_all (\<lambda>c. \<not> is_save c \<and> \<not> is_entry_mutation c) cs0" "disciplined f res cs"
  shows "disciplined f res (cs0 @ cs)"
proof (cases res)
  case (Inl err)
  with assms show ?thesis by (auto simp: disciplined_def list_all_iff)
next
  case (Inr p)
  obtain s changed where p: "p = (s, changed)" by (cases p)
  show ?thesis
  proof (cases changed)
    case True
    with assms Inr p have c: "cs \<noteq> []" "last cs = Save f"
      "list_all (\<lambda>c. \<not> is_save c) (butlast cs)" "list_ex is_entry_mutation (butlast cs)"
      by (simp_all add: disciplined_def)
    from c(1) have b: "butlast (cs0 @ cs) = cs0 @ butlast cs" by (simp add: butlast_append)
    from assms(1) have "list_all (\<lambda>c. \<not> is_save c) cs0" by (simp add: list_all_iff)
    with c b show ?thesis using Inr p True by (simp add: disciplined_def)
  next
    case False
    with assms Inr p show ?thesis by (simp add: disciplined_def)
  qed
qed

lemma disciplined_delete:
  assumes "disciplined f res cs" "res = Inl err \<or> (\<exists>s. res = Inr (s, True))"
  shows "disciplined f res (DeleteEntry e # cs)"
proof (cases res)
  case (Inl err)
  with assms show ?thesis by (simp add: disciplined_def)
next
  case (Inr p)
  with assms(2) obtain s where p: "res = Inr (s, True)" by auto
  with assms(1) have c: "cs \<noteq> []" "last cs = Save f"
      "list_all (\<lambda>c. \<not> is_save c) (butlast cs)" "list_ex is_entry_mutation (butlast cs)"
    by (simp_all add: disciplined_def)
  then show ?thesis using p by (simp add: disciplined_def)
qed

lemma create_entry_disciplined:
  assumes "path \<noteq> []"
    and "create_entry db db_path path dest ttl usr pwd link cprops fc = (res, db')"
  shows "\<exists>cs. calls db' = calls db @ cs \<and> disciplined db_path res cs
           \<and> (res = Inl AttributeError \<or> res = Inl StaleReference \<or> res = Inl EntryExists
                \<or> (\<exists>s. res = Inr (s, True)))"
proof -
  obtain r db1 where a: "add_entry db dest ttl usr pwd link fc = (r, db1)"
    by (cases "add_entry db dest ttl usr pwd link fc")
  show ?thesis
  proof (cases r)
    case (Inl err)
    with a have e: "err = AttributeError \<or> err = StaleReference \<or> err = EntryExists"
      by (auto simp: add_entry_def Let_def split: option.splits if_splits)
    from create_entry_Inl [OF a [unfolded Inl], of db_path path cprops] assms(2)
    have "res = Inl err" "db' = db\<lparr>calls := calls db @ [AddEntry dest ttl]\<rparr>" by simp_all
    with e show ?thesis
      by (intro exI [of _ "[AddEntry dest ttl]"]) (auto simp: disciplined_def)
  next
    case (Inr e)
    let ?sets = "map (\<lambda>(k, v). SetCustomProperty e k v) (new_properties cprops)"
    from create_entry_Inr [OF a [unfolded Inr] assms(1), of db_path cprops] assms(2)
    obtain s where r: "res = Inr (s, True)"
      and c: "calls db' = calls db @ [AddEntry dest ttl] @ ?sets @ [Save db_path]"
      by auto
    have "list_all (\<lambda>c. \<not> is_save c) ?sets" by (induction "new_properties cprops") (auto simp: list_all_iff)
    then have "disciplined db_path res ([AddEntry dest ttl] @ ?sets @ [Save db_path])"
      using r by (simp add: disciplined_def butlast_append)
    with r c show ?thesis by (intro exI [of _ "[AddEntry dest ttl] @ ?sets @ [Save db_path]"]) simp
  qed
qed

lemma convert_entry_unchanged:
  "disciplined f (convert_entry db path e False) [FindEntriesByPath path]"
  by (auto simp: disciplined_def convert_entry_def convert_secret_to_dic_def
           split: option.splits sum.splits)

lemma write_nested_disciplined:
  assumes "write_nested db db_path path parent usr pwd link cprops force = (res, db')"
  shows "\<exists>cs. calls db' = calls db @ cs \<and> disciplined db_path res cs"
proof -
  let ?db1 = "db\<lparr>calls := calls db @ [FindEntriesByPath path]\<rparr>"
  show ?thesis
  proof (cases "first_match (entry_matches (tree db) path)")
    case None
    show ?thesis
    proof (cases "path = []")
      case True
      with None assms have "res = Inl IndexError" "db' = ?db1"
        by (simp_all add: write_nested_def find_entries_by_path_eq)
      then show ?thesis
        by (intro exI [of _ "[FindEntriesByPath path]"]) (simp add: disciplined_def)
    next
      case False
      with None assms have "create_entry ?db1 db_path path parent (path ! 0) usr pwd link cprops False
                             = (res, db')"
        by (simp add: write_nested_def find_entries_by_path_eq)
      from create_entry_disciplined [OF False this]
      obtain cs where cs: "calls db' = calls ?db1 @ cs" "disciplined db_path res cs" by blast
      have "disciplined db_path res ([FindEntriesByPath path] @ cs)"
        by (rule disciplined_prefix) (use cs in simp_all)
      with cs(1) show ?thesis by (intro exI [of _ "[FindEntriesByPath path] @ cs"]) simp
    qed
  next
    case (Some e)
    show ?thesis
    proof (cases force)
      case False
      with Some assms have "res = convert_entry ?db1 path e False" "db' = ?db1"
        by (auto simp: write_nested_def find_entries_by_path_eq)
      then show ?thesis using convert_entry_unchanged [of db_path ?db1 path e]
        by (intro exI [of _ "[FindEntriesByPath path]"]) simp
    next
      case True
      let ?db2 = "delete_entry ?db1 e"
      have c2: "calls ?db2 = calls db @ [FindEntriesByPath path, DeleteEntry e]"
        by (simp add: delete_entry_def)
      show ?thesis
      proof (cases "path = []")
        case True
        with Some \<open>force\<close> assms have "res = Inl IndexError" "db' = ?db2"
          by (simp_all add: write_nested_def find_entries_by_path_eq Let_def)
        with c2 show ?thesis
          by (intro exI [of _ "[FindEntriesByPath path, DeleteEntry e]"]) (simp add: disciplined_def)
      next
        case False
        with Some \<open>force\<close> assms
        have "create_entry ?db2 db_path path parent (path ! 0) usr pwd link cprops False = (res, db')"
          by (simp add: write_nested_def find_entries_by_path_eq Let_def)
        from create_entry_disciplined [OF False this]
        obtain cs where cs: "calls db' = calls ?db2 @ cs" "disciplined db_path res cs"
          and r: "res = Inl AttributeError \<or> res = Inl StaleReference \<or> res = Inl EntryExists
                \<or> (\<exists>s. res = Inr (s, True))" by blast
        from r have "(\<exists>err. res = Inl err) \<or> (\<exists>s. res = Inr (s, True))" by auto
        then have "disciplined db_path res (DeleteEntry e # cs)"
          using disciplined_delete [OF cs(2)] by blast
        then have "disciplined db_path res ([FindEntriesByPath path] @ (DeleteEntry e # cs))"
          by (intro disciplined_prefix) simp_all
        with cs(1) c2 show ?thesis
          by (intro exI [of _ "[FindEntriesByPath path] @ (DeleteEntry e # cs)"]) simp
      qed
    qed
  qed
qed

lemma write_root_disciplined:
  assumes "write_root db db_path path usr pwd link cprops force = (res, db')" "path \<noteq> []"
  shows "\<exists>cs. calls db' = calls db @ cs \<and> disciplined db_path res cs"
proof -
  let ?db1 = "db\<lparr>calls := calls db @ [FindEntriesByPath path]\<rparr>"
  let ?ttl = "path ! (length path - 1)"
  show ?thesis
  proof (cases "first_match (entry_matches (tree db) path)")
    case None
    with assms have "create_entry ?db1 db_path path (Some root_group) ?ttl usr pwd link cprops True
                             = (res, db')"
      by (simp add: write_root_def find_entries_by_path_eq)
    from create_entry_disciplined [OF assms(2) this]
    obtain cs where cs: "calls db' = calls ?db1 @ cs" "disciplined db_path res cs" by blast
    have "disciplined db_path res ([FindEntriesByPath path] @ cs)"
      by (rule disciplined_prefix) (use cs in simp_all)
    with cs(1) show ?thesis by (intro exI [of _ "[FindEntriesByPath path] @ cs"]) simp
  next
    case (Some e)
    show ?thesis
    proof (cases force)
      case False
      with Some assms have "res = convert_entry ?db1 path e False" "db' = ?db1"
        by (auto simp: write_root_def find_entries_by_path_eq)
      then show ?thesis using convert_entry_unchanged [of db_path ?db1 path e]
        by (intro exI [of _ "[FindEntriesByPath path]"]) simp
    next
      case True
      let ?db2 = "delete_entry ?db1 e"
      have c2: "calls ?db2 = calls db @ [FindEntriesByPath path, DeleteEntry e]"
        by (simp add: delete_entry_def)
      from Some True assms
      have "create_entry ?db2 db_path path (Some root_group) ?ttl usr pwd link cprops True = (res, db')"
        by (simp add: write_root_def find_entries_by_path_eq)
      from create_entry_disciplined [OF assms(2) this]
      obtain cs where cs: "calls db' = calls ?db2 @ cs" "disciplined db_path res cs"
        and r: "res = Inl AttributeError \<or> res = Inl StaleReference \<or> res = Inl EntryExists
              \<or> (\<exists>s. res = Inr (s, True))" by blast
      from r have "(\<exists>err. res = Inl err) \<or> (\<exists>s. res = Inr (s, True))" by auto
      then have "disciplined db_path res (DeleteEntry e # cs)"
        using disciplined_delete [OF cs(2)] by blast
      then have "disciplined db_path res ([FindEntriesByPath path] @ (DeleteEntry e # cs))"
        by (intro disciplined_prefix) simp_all
      with cs(1) c2 show ?thesis
        by (intro exI [of _ "[FindEntriesByPath path] @ (DeleteEntry e # cs)"]) simp
    qed
  qed
qed

lemma walk_calls:
  "\<exists>cs. calls (snd (walk path items group_path parent i db)) = calls db @ cs
        \<and> list_all (\<lambda>c. \<not> is_save c \<and> \<not> is_entry_mutation c) cs"
proof (induction items arbitrary: group_path parent i db)
  case Nil
  show ?case by (intro exI [of _ "[]"]) simp
next
  case (Cons item rest)
  show ?case
  proof (cases "item = path ! (length path - 1) \<and> i = length path - 1")
    case True
    then show ?thesis by (intro exI [of _ "[]"]) simp
  next
    case False
    let ?gp = "group_path @ [item]"
    let ?db1 = "db\<lparr>calls := calls db @ [FindGroups ?gp]\<rparr>"
    show ?thesis
    proof (cases "first_match (group_matches (tree db) ?gp)")
      case None
      let ?p = "case parent of None \<Rightarrow> root_group | Some p \<Rightarrow> p"
      let ?db2 = "snd (add_group ?db1 ?p item)"
      have step: "walk path (item # rest) group_path parent i db
              = walk path rest ?gp (Some (fst (add_group ?db1 ?p item))) (i + 1) ?db2"
        using False None by (rule walk_missing)
      have c2: "calls ?db2 = calls db @ [FindGroups ?gp, AddGroup ?p item]"
        by (simp add: add_group_def)
      from Cons.IH [of ?gp "Some (fst (add_group ?db1 ?p item))" "i + 1" ?db2]
      obtain cs where cs: "calls (snd (walk path rest ?gp (Some (fst (add_group ?db1 ?p item)))
                                    (i + 1) ?db2)) = calls ?db2 @ cs"
        and q: "list_all (\<lambda>c. \<not> is_save c \<and> \<not> is_entry_mutation c) cs"
        by blast
      show ?thesis unfolding step using cs q c2
        by (intro exI [of _ "[FindGroups ?gp, AddGroup ?p item] @ cs"]) simp
    next
      case (Some g)
      have step: "walk path (item # rest) group_path parent i db
              = walk path rest ?gp (Some g) (i + 1) ?db1"
        using False Some by (rule walk_found)
      from Cons.IH [of ?gp "Some g" "i + 1" ?db1]
      obtain cs where cs: "calls (snd (walk path rest ?gp (Some g) (i + 1) ?db1)) = calls ?db1 @ cs"
        and q: "list_all (\<lambda>c. \<not> is_save c \<and> \<not> is_entry_mutation c) cs"
        by blast
      show ?thesis unfolding step using cs q
        by (intro exI [of _ "[FindGroups ?gp] @ cs"]) simp
    qed
  qed
qed

lemma secret_write_disciplined:
  assumes "secret_write sp db db_path usr pwd link cprops force = (res, db')"
  shows "\<exists>cs. calls db' = calls db @ cs \<and> disciplined db_path res cs"
proof (cases "blank sp")
  case True
  from blank_write [OF True, of db db_path usr pwd link cprops force] assms
  have "res = Inl ValueError" "db' = db" by simp_all
  then show ?thesis by (intro exI [of _ "[]"]) (simp add: disciplined_def)
next
  case False
  then obtain s where sp: "sp = Some s" and s: "s \<noteq> []" "\<not> isspace s"
    by (cases sp) (auto simp: blank_def)
  let ?path = "split CHR ''/'' s"
  show ?thesis
  proof (cases "length ?path > 1")
    case True
    let ?p1 = "nonempty_items ?path"
    obtain parent db1 where w: "walk ?p1 ?p1 [] None 0 db = (parent, db1)"
      by (cases "walk ?p1 ?p1 [] None 0 db")
    from walk_calls [of ?p1 ?p1 "[]" None 0 db] w
    obtain cs0 where cs0: "calls db1 = calls db @ cs0"
      "list_all (\<lambda>c. \<not> is_save c \<and> \<not> is_entry_mutation c) cs0"
      by auto
    have "write_nested db1 db_path ?p1 parent usr pwd link cprops force = (res, db')"
      using assms sp s True w by (simp add: secret_write_def del: walk.simps)
    from write_nested_disciplined [OF this]
    obtain cs where cs: "calls db' = calls db1 @ cs" "disciplined db_path res cs" by blast
    from disciplined_prefix [OF cs0(2) cs(2)] cs(1) cs0(1) show ?thesis
      by (intro exI [of _ "cs0 @ cs"]) simp
  next
    case False
    with split_nonempty [of "CHR ''/''" s] have one: "length ?path = 1"
      by (cases ?path) auto
    then have "?path \<noteq> []" by auto
    moreover have "write_root db db_path ?path usr pwd link cprops force = (res, db')"
      using assms sp s one by (simp add: secret_write_def)
    ultimately show ?thesis using write_root_disciplined by blast
  qed
qed

text \<open>
  What holds of every run of \<open>secret_write\<close>: it only adds to the record of calls;
  when it returns \<open>changed = True\<close>, \<open>save\<close> is its last call and comes after a
  change of an entry; when it returns \<open>changed = False\<close>, it has neither saved nor
  changed an entry; when it raises, it has not saved.
\<close>

lemma secret_write_returns_disciplined:
  assumes "secret_write sp db db_path usr pwd link cprops force = (res, db')"
  shows "\<exists>cs. calls db' = calls db @ cs \<and> disciplined db_path res cs"
  using assms by (rule secret_write_disciplined)

text \<open>
  C9. Two runs that take the forced delete-and-recreate branch and never reach
  \<open>save\<close>. Forced write of \<open>/solo\<close> into a store whose root group holds \<open>solo\<close>: the
  entry is deleted, then \<open>add_entry\<close> is called without a destination group and
  raises. Forced write of \<open>/a/c\<close> with username \<open>u\<close> into a store whose group \<open>a\<close>
  holds the entries \<open>a\<close> (username \<open>u\<close>) and \<open>c\<close>: the entry \<open>c\<close> is deleted, then
  the new entry is titled with the first segment \<open>a\<close> and the store refuses it. In
  both runs the store has lost the entry and \<open>save\<close> is not among the calls.
\<close>

theorem forced_branch_without_save:
  "(case secret_write (Some ''/solo'') solo_store ''keys.kdbx'' (Some ''u'') (Some ''p'')
           None None True of
      (res, db) \<Rightarrow>
        res = Inl AttributeError
        \<and> calls db = [FindEntriesByPath [''solo''], DeleteEntry ([], 0), AddEntry None ''solo'']
        \<and> list_ex is_entry_mutation (calls db)
        \<and> list_all (\<lambda>c. \<not> is_save c) (calls db)
        \<and> length (entries (tree solo_store)) = 1
        \<and> entries (tree db) = [])
   \<and> (case secret_write (Some ''/a/c'') clash_store ''keys.kdbx'' (Some ''u'') (Some ''p'')
             None None True of
        (res, db) \<Rightarrow>
          res = Inl EntryExists
          \<and> calls db = [FindGroups [''a''], FindEntriesByPath [''a'', ''c''],
                         DeleteEntry ([0], 1), AddEntry (Some [0]) ''a'']
          \<and> list_ex is_entry_mutation (calls db)
          \<and> list_all (\<lambda>c. \<not> is_save c) (calls db)
          \<and> map title (entries (hd (subgroups (tree clash_store)))) = [''a'', ''c'']
          \<and> map title (entries (hd (subgroups (tree db)))) = [''a''])"
  by code_simp


section \<open>Bulk read of a group\<close>

lemma read_entries_spec:
  assumes "list_all (\<lambda>e. entry_path (tree db) e \<noteq> []) es"
  shows "\<exists>cs. read_entries db es acc
           = (Inr (acc @ List.map_filter (\<lambda>e. map_option secret_record (reresolve (tree db) e)) es),
              db\<lparr>calls := calls db @ cs\<rparr>)
         \<and> list_all is_lookup cs"
  using assms
proof (induction es arbitrary: db acc)
  case Nil
  show ?case by (intro exI [of _ "[]"]) simp
next
  case (Cons e es)
  let ?t = "tree db"
  let ?p = "entry_path ?t e"
  let ?db1 = "db\<lparr>calls := calls db @ [FindEntriesByPath ?p]\<rparr>"
  let ?f = "\<lambda>e. map_option secret_record (reresolve ?t e)"
  from Cons.prems have p: "?p \<noteq> []" and rest: "list_all (\<lambda>e. entry_path (tree ?db1) e \<noteq> []) es"
    by simp_all
  show ?case
  proof (cases "first_match (entry_matches ?t ?p)")
    case None
    then have step: "read_entries db (e # es) acc = read_entries ?db1 es acc"
      by (simp add: find_entries_by_path_eq)
    from None have f: "?f e = None" by (simp add: reresolve_def)
    from Cons.IH [OF rest, of acc] obtain cs where
      cs: "read_entries ?db1 es acc
            = (Inr (acc @ List.map_filter ?f es), db\<lparr>calls := calls db @ ([FindEntriesByPath ?p] @ cs)\<rparr>)"
      and lk: "list_all is_lookup cs"
      by auto
    show ?thesis unfolding step using cs lk f
      by (intro exI [of _ "[FindEntriesByPath ?p] @ cs"]) simp
  next
    case (Some e')
    from entry_matches_entry_at [OF first_match_Some [OF Some] p]
    obtain x where x: "entry_at ?t e' = Some x" "title x = last ?p" "entry_path ?t e' = ?p"
      by blast
    from Some x have f: "reresolve ?t e = Some x" "secret_record x = [(last ?p, secret_fields x)]"
      by (simp_all add: reresolve_def secret_record_def)
    have step: "read_entries db (e # es) acc
                  = read_entries ?db1 es (acc @ [[(last ?p, secret_fields x)]])"
      using Some x p by (simp add: find_entries_by_path_eq)
    from Cons.IH [OF rest, of "acc @ [[(last ?p, secret_fields x)]]"] obtain cs where
      cs: "read_entries ?db1 es (acc @ [[(last ?p, secret_fields x)]])
            = (Inr ((acc @ [[(last ?p, secret_fields x)]]) @ List.map_filter ?f es),
               db\<lparr>calls := calls db @ ([FindEntriesByPath ?p] @ cs)\<rparr>)"
      and lk: "list_all is_lookup cs"
      by auto
    show ?thesis unfolding step using cs lk f
      by (intro exI [of _ "[FindEntriesByPath ?p] @ cs"]) simp
  qed
qed

lemma group_entries_paths:
  "list_all (\<lambda>e. entry_path t e \<noteq> []) (group_entries t r)"
  by (auto simp: group_entries_def list_all_iff entry_path_def entry_at_def split: option.splits)

lemma group_to_dic_spec:
  assumes "\<not> blank (Some gp)"
  shows "\<exists>cs. group_to_dic db (Some gp)
           = (Inr (readGroup (tree db) (segments gp)), db\<lparr>calls := calls db @ cs\<rparr>)
         \<and> list_all is_lookup cs"
proof -
  let ?path = "segments gp"
  let ?db1 = "db\<lparr>calls := calls db @ [FindGroups ?path]\<rparr>"
  from assms have gp: "gp \<noteq> []" "\<not> isspace gp" by (simp_all add: blank_def)
  have len: "length (split CHR ''/'' gp) > 0" using split_nonempty [of "CHR ''/''" gp] by simp
  show ?thesis
  proof (cases "first_match (group_matches (tree db) ?path)")
    case None
    with gp len have "group_to_dic db (Some gp) = (Inr [], ?db1)"
      by (simp add: group_to_dic_def find_groups_eq segments_def)
    with None show ?thesis
      by (intro exI [of _ "[FindGroups ?path]"]) (simp add: readGroup_def)
  next
    case (Some r)
    with gp len have step: "group_to_dic db (Some gp)
                       = read_entries ?db1 (group_entries (tree ?db1) r) []"
      by (simp add: group_to_dic_def find_groups_eq segments_def del: read_entries.simps)
    have "list_all (\<lambda>e. entry_path (tree ?db1) e \<noteq> []) (group_entries (tree ?db1) r)"
      by (rule group_entries_paths)
    from read_entries_spec [OF this, of "[]"] obtain cs where
      cs: "read_entries ?db1 (group_entries (tree ?db1) r) []
            = (Inr (List.map_filter (\<lambda>e. map_option secret_record (reresolve (tree db) e))
                      (group_entries (tree db) r)),
               db\<lparr>calls := calls db @ ([FindGroups ?path] @ cs)\<rparr>)"
      and lk: "list_all is_lookup cs"
      by auto
    show ?thesis unfolding step using cs lk Some
      by (intro exI [of _ "[FindGroups ?path] @ cs"]) (simp add: readGroup_def)
  qed
qed

lemma reresolve_direct_entry:
  assumes "first_match (group_matches t path) = Some r" "group_at t r = Some g"
    "i < length (entries g)"
  shows "\<exists>x. reresolve t (r, i) = Some x \<and> title x = title (entries g ! i)"
proof -
  from first_match_Some [OF assms(1)] have r: "r \<in> set (group_matches t path)" .
  from group_matches_valid [OF r] assms(2) have n: "names_along t r = path" by simp
  let ?p = "path @ [title (entries g ! i)]"
  have ep: "entry_path t (r, i) = ?p"
    using assms(2,3) n by (simp add: entry_path_def entry_at_def)
  from group_entry_rematches [OF r assms(2,3)] have "entry_matches t ?p \<noteq> []" by auto
  then obtain e' where e': "first_match (entry_matches t ?p) = Some e'"
    by (cases "entry_matches t ?p") (auto simp: first_match_def)
  from entry_matches_entry_at [OF first_match_Some [OF e']]
  obtain x where "entry_at t e' = Some x" "title x = last ?p" by auto
  with e' ep show ?thesis by (simp add: reresolve_def)
qed

lemma map_filter_all_Some:
  "list_all (\<lambda>e. f e \<noteq> None) es \<Longrightarrow> List.map_filter f es = map (\<lambda>e. the (f e)) es"
  by (induction es) auto

lemma readGroup_found:
  assumes "first_match (group_matches t path) = Some r" "group_at t r = Some g"
  shows "readGroup t path
           = map (\<lambda>i. secret_record (the (reresolve t (r, i)))) [0..<length (entries g)]"
proof -
  let ?f = "\<lambda>e. map_option secret_record (reresolve t e)"
  have es: "group_entries t r = map (\<lambda>i. (r, i)) [0..<length (entries g)]"
    using assms(2) by (simp add: group_entries_def)
  have all: "reresolve t (r, i) \<noteq> None" if "i < length (entries g)" for i
    using reresolve_direct_entry [OF assms that] by auto
  have "list_all (\<lambda>e. ?f e \<noteq> None) (group_entries t r)"
    unfolding es list_all_iff using all by auto
  from map_filter_all_Some [OF this]
  have "List.map_filter ?f (group_entries t r) = map (\<lambda>e. the (?f e)) (group_entries t r)" .
  also have "\<dots> = map (\<lambda>i. the (?f (r, i))) [0..<length (entries g)]"
    unfolding es by (simp add: o_def)
  also have "\<dots> = map (\<lambda>i. secret_record (the (reresolve t (r, i)))) [0..<length (entries g)]"
  proof (rule map_cong [OF refl])
    fix i
    assume "i \<in> set [0..<length (entries g)]"
    then have "i < length (entries g)" by simp
    from all [OF this] obtain y where "reresolve t (r, i) = Some y" by auto
    then show "the (?f (r, i)) = secret_record (the (reresolve t (r, i)))" by simp
  qed
  finally show ?thesis using assms(1) by (simp add: readGroup_def)
qed

lemma readGroup_keys:
  assumes "first_match (group_matches t path) = Some r" "group_at t r = Some g"
  shows "map (map fst) (readGroup t path) = map (\<lambda>e. [title e]) (entries g)"
proof -
  have key: "map fst (secret_record (the (reresolve t (r, i)))) = [title (entries g ! i)]"
    if "i < length (entries g)" for i
    using reresolve_direct_entry [OF assms that] by (auto simp: secret_record_def)
  have "map (map fst) (readGroup t path)
          = map (\<lambda>i. map fst (secret_record (the (reresolve t (r, i))))) [0..<length (entries g)]"
    by (simp add: readGroup_found [OF assms] o_def)
  also have "\<dots> = map (\<lambda>i. [title (entries g ! i)]) [0..<length (entries g)]"
    by (rule map_cong [OF refl]) (simp add: key)
  also have "\<dots> = map (\<lambda>e. [title e]) (map ((!) (entries g)) [0..<length (entries g)])"
    by (simp add: o_def)
  also have "\<dots> = map (\<lambda>e. [title e]) (entries g)"
    by (simp only: map_nth)
  finally show ?thesis .
qed


lemma entry_matches_resolved:
  assumes "e \<in> set (entry_matches t path)"
  shows "\<exists>x. entry_at t e = Some x \<and> entry_path t e \<noteq> [] \<and> last (entry_path t e) = title x"
proof -
  let ?s = "if path = [] then [] else last path"
  from assms obtain q where q: "q \<in> set (group_matches t (butlast path))"
    and e: "e \<in> set (entries_titled t ?s q)"
    by (auto simp: entry_matches_def)
  from group_matches_valid [OF q] obtain g where g: "group_at t q = Some g" by blast
  from e g obtain i where i: "e = (q, i)" "i < length (entries g)"
    by (auto simp: entries_titled_def)
  with g show ?thesis by (simp add: entry_at_def entry_path_def)
qed

lemma read_entries_any:
  "\<exists>cs. read_entries db es acc
           = (Inr (acc @ List.map_filter (\<lambda>e. map_option secret_record (reresolve (tree db) e)) es),
              db\<lparr>calls := calls db @ cs\<rparr>)
         \<and> list_all is_lookup cs"
proof (induction es arbitrary: db acc)
  case Nil
  show ?case by (intro exI [of _ "[]"]) simp
next
  case (Cons e es)
  let ?t = "tree db"
  let ?p = "entry_path ?t e"
  let ?db1 = "db\<lparr>calls := calls db @ [FindEntriesByPath ?p]\<rparr>"
  let ?f = "\<lambda>e. map_option secret_record (reresolve ?t e)"
  show ?case
  proof (cases "first_match (entry_matches ?t ?p)")
    case None
    then have step: "read_entries db (e # es) acc = read_entries ?db1 es acc"
      by (simp add: find_entries_by_path_eq)
    from None have f: "?f e = None" by (simp add: reresolve_def)
    from Cons.IH [of ?db1 acc] obtain cs where
      cs: "read_entries ?db1 es acc
            = (Inr (acc @ List.map_filter ?f es), db\<lparr>calls := calls db @ ([FindEntriesByPath ?p] @ cs)\<rparr>)"
      and lk: "list_all is_lookup cs"
      by auto
    show ?thesis unfolding step using cs lk f
      by (intro exI [of _ "[FindEntriesByPath ?p] @ cs"]) simp
  next
    case (Some e')
    from entry_matches_resolved [OF first_match_Some [OF Some]]
    obtain x where x: "entry_at ?t e' = Some x" "entry_path ?t e' \<noteq> []"
      "last (entry_path ?t e') = title x"
      by blast
    from Some x have f: "reresolve ?t e = Some x" "secret_record x = [(title x, secret_fields x)]"
      by (simp_all add: reresolve_def secret_record_def)
    have step: "read_entries db (e # es) acc
                  = read_entries ?db1 es (acc @ [[(title x, secret_fields x)]])"
      using Some x by (simp add: find_entries_by_path_eq)
    from Cons.IH [of ?db1 "acc @ [[(title x, secret_fields x)]]"] obtain cs where
      cs: "read_entries ?db1 es (acc @ [[(title x, secret_fields x)]])
            = (Inr ((acc @ [[(title x, secret_fields x)]]) @ List.map_filter ?f es),
               db\<lparr>calls := calls db @ ([FindEntriesByPath ?p] @ cs)\<rparr>)"
      and lk: "list_all is_lookup cs"
      by auto
    show ?thesis unfolding step using cs lk f
      by (intro exI [of _ "[FindEntriesByPath ?p] @ cs"]) simp
  qed
qed

lemma group_to_dic_none:
  assumes "\<not> blank (Some gp)" "first_match (group_matches (tree db) (segments gp)) = None"
  shows "group_to_dic db (Some gp)
           = (Inr [], db\<lparr>calls := calls db @ [FindGroups (segments gp)]\<rparr>)"
proof -
  from assms(1) have gp: "gp \<noteq> []" "\<not> isspace gp" by (simp_all add: blank_def)
  have len: "length (split CHR ''/'' gp) > 0" using split_nonempty [of "CHR ''/''" gp] by simp
  from gp len assms(2) show ?thesis
    by (simp add: group_to_dic_def find_groups_eq segments_def)
qed

lemma group_to_dic_some:
  assumes "\<not> blank (Some gp)" "first_match (group_matches (tree db) (segments gp)) = Some r"
  shows "group_to_dic db (Some gp)
           = read_entries (db\<lparr>calls := calls db @ [FindGroups (segments gp)]\<rparr>)
               (group_entries (tree db) r) []"
proof -
  from assms(1) have gp: "gp \<noteq> []" "\<not> isspace gp" by (simp_all add: blank_def)
  have len: "length (split CHR ''/'' gp) > 0" using split_nonempty [of "CHR ''/''" gp] by simp
  from gp len assms(2) show ?thesis
    by (simp add: group_to_dic_def find_groups_eq segments_def del: read_entries.simps)
qed

lemma reresolve_key:
  assumes "reresolve t e = Some x"
  shows "\<exists>e'. first_match (entry_matches t (entry_path t e)) = Some e' \<and> entry_at t e' = Some x
            \<and> entry_path t e' \<noteq> [] \<and> last (entry_path t e') = title x"
proof -
  from assms obtain e' where e': "first_match (entry_matches t (entry_path t e)) = Some e'"
    and x: "entry_at t e' = Some x"
    by (auto simp: reresolve_def split: option.splits)
  from entry_matches_resolved [OF first_match_Some [OF e']] x e' show ?thesis by auto
qed

text \<open>
  C8. For a valid path string: when no group is found at the segments of the path,
  \<open>group_to_dic\<close> returns the empty sequence, not an error, after the one lookup;
  when a group is found, it runs its loop on the references of that group's direct
  entries, in the store's order, and on nothing else. The loop, on whatever entry
  references it is given, resolves each entry again by the entry's own path, skips the
  entry when that lookup fails, and otherwise appends one record, keyed by the terminal
  name of the resolved entry; it only looks things up in the store. Together:
  \<open>group_to_dic\<close> returns what the specification's bulk read returns.
\<close>

theorem group_bulk_read:
  assumes "\<not> blank (Some gp)"
  shows "(first_match (group_matches (tree db) (segments gp)) = None \<longrightarrow>
            group_to_dic db (Some gp)
              = (Inr [], db\<lparr>calls := calls db @ [FindGroups (segments gp)]\<rparr>))
       \<and> (\<forall>r. first_match (group_matches (tree db) (segments gp)) = Some r \<longrightarrow>
            group_to_dic db (Some gp)
              = read_entries (db\<lparr>calls := calls db @ [FindGroups (segments gp)]\<rparr>)
                  (group_entries (tree db) r) [])
       \<and> (\<forall>es acc. \<exists>cs.
            read_entries db es acc
              = (Inr (acc @ List.map_filter
                          (\<lambda>e. map_option secret_record (reresolve (tree db) e)) es),
                 db\<lparr>calls := calls db @ cs\<rparr>)
            \<and> list_all is_lookup cs)
       \<and> (\<forall>e x. reresolve (tree db) e = Some x \<longrightarrow>
            (\<exists>e'. first_match (entry_matches (tree db) (entry_path (tree db) e)) = Some e'
                 \<and> entry_at (tree db) e' = Some x
                 \<and> entry_path (tree db) e' \<noteq> []
                 \<and> last (entry_path (tree db) e') = title x))
       \<and> (\<exists>cs. group_to_dic db (Some gp)
              = (Inr (readGroup (tree db) (segments gp)), db\<lparr>calls := calls db @ cs\<rparr>)
            \<and> list_all is_lookup cs)"
proof (intro conjI impI allI)
  show "group_to_dic db (Some gp)
          = (Inr [], db\<lparr>calls := calls db @ [FindGroups (segments gp)]\<rparr>)"
    if "first_match (group_matches (tree db) (segments gp)) = None"
    using assms that by (rule group_to_dic_none)
  show "group_to_dic db (Some gp)
          = read_entries (db\<lparr>calls := calls db @ [FindGroups (segments gp)]\<rparr>)
              (group_entries (tree db) r) []"
    if "first_match (group_matches (tree db) (segments gp)) = Some r" for r
    using assms that by (rule group_to_dic_some)
  show "\<exists>cs. read_entries db es acc
              = (Inr (acc @ List.map_filter
                          (\<lambda>e. map_option secret_record (reresolve (tree db) e)) es),
                 db\<lparr>calls := calls db @ cs\<rparr>)
            \<and> list_all is_lookup cs" for es acc
    by (rule read_entries_any)
  show "\<exists>e'. first_match (entry_matches (tree db) (entry_path (tree db) e)) = Some e'
                 \<and> entry_at (tree db) e' = Some x
                 \<and> entry_path (tree db) e' \<noteq> []
                 \<and> last (entry_path (tree db) e') = title x"
    if "reresolve (tree db) e = Some x" for e x
    using that by (rule reresolve_key)
  show "\<exists>cs. group_to_dic db (Some gp)
              = (Inr (readGroup (tree db) (segments gp)), db\<lparr>calls := calls db @ cs\<rparr>)
            \<and> list_all is_lookup cs"
    using assms by (rule group_to_dic_spec)
qed

theorem group_bulk_read_witness:
  "\<not> blank (Some ''/a/b'')
   \<and> fst (group_to_dic nested_store (Some ''/a/b''))
       = Inr [[(''c'', [(''username'', ''shadow''), (''password'', ''p''), (''colour'', ''red'')])],
              [(''d'', [(''password'', ''q'')])]]
   \<and> fst (group_to_dic nested_store (Some ''/nonexistent'')) = Inr []
   \<and> reresolve (tree nested_store) ([0, 0], 7) = None
   \<and> fst (read_entries nested_store [([0, 0], 7), ([0, 0], 1), ([0], 0), ([0, 0], 0)] [])
       = Inr [[(''d'', [(''password'', ''q'')])],
              [(''c'', [(''username'', ''shadow''), (''password'', ''p''), (''colour'', ''red'')])]]
   \<and> (\<exists>cs. read_entries nested_store [([0, 0], 7), ([0, 0], 1), ([0], 0), ([0, 0], 0)] []
            = (Inr ([] @ List.map_filter
                        (\<lambda>e. map_option secret_record (reresolve (tree nested_store) e))
                        [([0, 0], 7), ([0, 0], 1), ([0], 0), ([0, 0], 0)]),
               nested_store\<lparr>calls := calls nested_store @ cs\<rparr>)
          \<and> list_all is_lookup cs)
   \<and> (\<exists>cs. group_to_dic nested_store (Some ''/a/b'')
            = (Inr (readGroup (tree nested_store) (segments ''/a/b'')),
               nested_store\<lparr>calls := calls nested_store @ cs\<rparr>)
          \<and> list_all is_lookup cs)"
proof -
  have h: "\<not> blank (Some ''/a/b'')" by code_simp
  have v: "fst (group_to_dic nested_store (Some ''/a/b''))
       = Inr [[(''c'', [(''username'', ''shadow''), (''password'', ''p''), (''colour'', ''red'')])],
              [(''d'', [(''password'', ''q'')])]]"
    by code_simp
  have n: "fst (group_to_dic nested_store (Some ''/nonexistent'')) = Inr []" by code_simp
  have s: "reresolve (tree nested_store) ([0, 0], 7) = None" by code_simp
  have k: "fst (read_entries nested_store [([0, 0], 7), ([0, 0], 1), ([0], 0), ([0, 0], 0)] [])
       = Inr [[(''d'', [(''password'', ''q'')])],
              [(''c'', [(''username'', ''shadow''), (''password'', ''p''), (''colour'', ''red'')])]]"
    by code_simp
  note t = group_bulk_read [OF h, of nested_store]
  from t have l: "\<exists>cs. read_entries nested_store [([0, 0], 7), ([0, 0], 1), ([0], 0), ([0, 0], 0)] []
            = (Inr ([] @ List.map_filter
                        (\<lambda>e. map_option secret_record (reresolve (tree nested_store) e))
                        [([0, 0], 7), ([0, 0], 1), ([0], 0), ([0, 0], 0)]),
               nested_store\<lparr>calls := calls nested_store @ cs\<rparr>)
          \<and> list_all is_lookup cs"
    by blast
  from t have g: "\<exists>cs. group_to_dic nested_store (Some ''/a/b'')
            = (Inr (readGroup (tree nested_store) (segments ''/a/b'')),
               nested_store\<lparr>calls := calls nested_store @ cs\<rparr>)
          \<and> list_all is_lookup cs"
    by blast
  from h v n s k l g show ?thesis by (intro conjI)
qed


section \<open>Custom properties in the record\<close>

lemma fold_update_map_of:
  "map_of (fold (\<lambda>(k, v). AList.update k v) cp d) = map_of d ++ map_of (rev cp)"
proof (induction cp arbitrary: d)
  case Nil
  show ?case by simp
next
  case (Cons kv cp)
  obtain k v where kv: "kv = (k, v)" by (cases kv)
  have "map_of (fold (\<lambda>(k, v). AList.update k v) (kv # cp) d)
          = map_of (AList.update k v d) ++ map_of (rev cp)"
    using Cons.IH [of "AList.update k v d"] by (simp add: kv)
  also have "\<dots> = (map_of d)(k \<mapsto> v) ++ map_of (rev cp)"
    by (simp only: AList.update_conv')
  also have "\<dots> = map_of d ++ map_of (rev (kv # cp))"
    by (simp add: kv map_add_upd_left [symmetric] fun_eq_iff map_add_def split: option.splits)
  finally show ?case .
qed

lemma map_of_rev_Some:
  assumes "distinct (map fst cp)" "map_of cp k = Some v"
  shows "map_of (rev cp) k = Some v"
proof -
  have d: "distinct (map fst (rev cp))" using assms(1) by (simp add: distinct_map)
  from assms have "(k, v) \<in> set cp" by (simp add: map_of_eq_Some_iff)
  then have "(k, v) \<in> set (rev cp)" by simp
  with d show ?thesis by (simp add: map_of_eq_Some_iff)
qed

lemma secret_fields_custom:
  assumes "distinct (map fst (custom_properties x))" "map_of (custom_properties x) k = Some v"
  shows "map_of (secret_fields x) k = Some v"
proof -
  from assms(2) have ne: "custom_properties x \<noteq> []" by auto
  from map_of_rev_Some [OF assms] have r: "map_of (rev (custom_properties x)) k = Some v" .
  obtain d where "secret_fields x = fold (\<lambda>(k, v). AList.update k v) (custom_properties x) d"
    using ne by (simp add: secret_fields_def Let_def)
  then show ?thesis using r by (simp add: fold_update_map_of map_add_def)
qed

lemma secret_to_dic_found:
  assumes "\<not> blank (Some sp)"
    "first_match (entry_matches (tree db) (split CHR ''/'' sp)) = Some e"
    "entry_at (tree db) e = Some x"
  shows "fst (secret_to_dic db (Some sp)) = Inr [(last (split CHR ''/'' sp), secret_fields x)]"
  using assms split_nonempty [of "CHR ''/''" sp]
  by (simp add: secret_to_dic_def blank_def find_entries_by_path_eq Let_def)

lemma group_to_dic_nth:
  assumes "\<not> blank (Some gp)" "first_match (group_matches (tree db) (segments gp)) = Some r"
    "group_at (tree db) r = Some g" "i < length (entries g)" "reresolve (tree db) (r, i) = Some x"
  shows "\<exists>ss. fst (group_to_dic db (Some gp)) = Inr ss \<and> length ss = length (entries g)
            \<and> ss ! i = [(title x, secret_fields x)]"
proof -
  from group_to_dic_spec [OF assms(1), of db]
  have "fst (group_to_dic db (Some gp)) = Inr (readGroup (tree db) (segments gp))" by auto
  moreover have "length (readGroup (tree db) (segments gp)) = length (entries g)"
    by (simp add: readGroup_found [OF assms(2,3)])
  moreover have "readGroup (tree db) (segments gp) ! i = [(title x, secret_fields x)]"
    using assms(4,5) by (simp add: readGroup_found [OF assms(2,3)] secret_record_def)
  ultimately show ?thesis by blast
qed

text \<open>
  C10. When an entry has a custom property \<open>k\<close> with value \<open>v\<close> (its custom
  properties being a dict, with distinct keys), the inner dict of the record that each
  of the three modules builds for the entry maps \<open>k\<close> to \<open>v\<close>. For \<open>k\<close> equal to
  \<open>username\<close> or \<open>password\<close> this is the custom property, not the entry's field:
  the custom properties are stored into the same dict after the two fields.
\<close>

theorem custom_property_shadowing:
  assumes "distinct (map fst (custom_properties x))"
    and "map_of (custom_properties x) k = Some v"
  shows "(path \<noteq> [] \<longrightarrow>
           (\<exists>d. convert_secret_to_dic path x changed = Inr ([(last path, d)], changed)
                \<and> map_of d k = Some v))
       \<and> (\<not> blank (Some sp)
            \<and> first_match (entry_matches (tree db) (split CHR ''/'' sp)) = Some e
            \<and> entry_at (tree db) e = Some x \<longrightarrow>
           (\<exists>d. fst (secret_to_dic db (Some sp)) = Inr [(last (split CHR ''/'' sp), d)]
                \<and> map_of d k = Some v))
       \<and> (\<not> blank (Some gp)
            \<and> first_match (group_matches (tree db) (segments gp)) = Some r
            \<and> group_at (tree db) r = Some g \<and> i < length (entries g)
            \<and> reresolve (tree db) (r, i) = Some x \<longrightarrow>
           (\<exists>ss d. fst (group_to_dic db (Some gp)) = Inr ss \<and> length ss = length (entries g)
                \<and> ss ! i = [(title x, d)] \<and> map_of d k = Some v))"
proof (intro conjI impI)
  note sf = secret_fields_custom [OF assms]
  show "\<exists>d. convert_secret_to_dic path x changed = Inr ([(last path, d)], changed)
                \<and> map_of d k = Some v" if "path \<noteq> []"
    using that sf by (simp add: convert_secret_to_dic_def)
  show "\<exists>d. fst (secret_to_dic db (Some sp)) = Inr [(last (split CHR ''/'' sp), d)]
                \<and> map_of d k = Some v"
    if "\<not> blank (Some sp)
            \<and> first_match (entry_matches (tree db) (split CHR ''/'' sp)) = Some e
            \<and> entry_at (tree db) e = Some x"
    using secret_to_dic_found [of sp db e x] that sf by blast
  show "\<exists>ss d. fst (group_to_dic db (Some gp)) = Inr ss \<and> length ss = length (entries g)
                \<and> ss ! i = [(title x, d)] \<and> map_of d k = Some v"
    if "\<not> blank (Some gp)
            \<and> first_match (group_matches (tree db) (segments gp)) = Some r
            \<and> group_at (tree db) r = Some g \<and> i < length (entries g)
            \<and> reresolve (tree db) (r, i) = Some x"
    using group_to_dic_nth [of gp db r g i x] that sf by blast
qed

theorem custom_property_shadowing_witness:
  "distinct (map fst (custom_properties entry_c))
   \<and> map_of (custom_properties entry_c) ''username'' = Some ''shadow''
   \<and> username entry_c = Some ''u''
   \<and> (\<exists>d. convert_secret_to_dic [''a'', ''b'', ''c''] entry_c False
             = Inr ([(last [''a'', ''b'', ''c''], d)], False)
          \<and> map_of d ''username'' = Some ''shadow'')
   \<and> (\<exists>d. fst (secret_to_dic nested_store (Some ''a/b/c''))
             = Inr [(last (split CHR ''/'' ''a/b/c''), d)]
          \<and> map_of d ''username'' = Some ''shadow'')
   \<and> (\<exists>ss d. fst (group_to_dic nested_store (Some ''/a/b'')) = Inr ss
          \<and> length ss = length (entries (Group ''b'' [entry_c,
                     \<lparr>title = ''d'', username = None, password = Some ''q'', url = None,
                      custom_properties = []\<rparr>] [Group ''deep'' [] []]))
          \<and> ss ! 0 = [(title entry_c, d)] \<and> map_of d ''username'' = Some ''shadow'')"
proof -
  have h1: "distinct (map fst (custom_properties entry_c))" by code_simp
  have h2: "map_of (custom_properties entry_c) ''username'' = Some ''shadow''" by code_simp
  have h3: "username entry_c = Some ''u''" by code_simp
  have p: "[''a'', ''b'', ''c''] \<noteq> []" by simp
  have r: "\<not> blank (Some ''a/b/c'')
            \<and> first_match (entry_matches (tree nested_store) (split CHR ''/'' ''a/b/c''))
                = Some ([0, 0], 0)
            \<and> entry_at (tree nested_store) ([0, 0], 0) = Some entry_c"
    by code_simp
  have g: "\<not> blank (Some ''/a/b'')
            \<and> first_match (group_matches (tree nested_store) (segments ''/a/b'')) = Some [0, 0]
            \<and> group_at (tree nested_store) [0, 0]
                = Some (Group ''b'' [entry_c,
                     \<lparr>title = ''d'', username = None, password = Some ''q'', url = None,
                      custom_properties = []\<rparr>] [Group ''deep'' [] []])
            \<and> 0 < length (entries (Group ''b'' [entry_c,
                     \<lparr>title = ''d'', username = None, password = Some ''q'', url = None,
                      custom_properties = []\<rparr>] [Group ''deep'' [] []]))
            \<and> reresolve (tree nested_store) ([0, 0], 0) = Some entry_c"
    by code_simp
  note t = custom_property_shadowing [OF h1 h2, of "[''a'', ''b'', ''c'']" False "''a/b/c''"
      nested_store "([0, 0], 0)" "''/a/b''" "[0, 0]"
      "Group ''b'' [entry_c,
                     \<lparr>title = ''d'', username = None, password = Some ''q'', url = None,
                      custom_properties = []\<rparr>] [Group ''deep'' [] []]" 0]
  from t p have c1: "\<exists>d. convert_secret_to_dic [''a'', ''b'', ''c''] entry_c False
             = Inr ([(last [''a'', ''b'', ''c''], d)], False)
          \<and> map_of d ''username'' = Some ''shadow''" by blast
  from t r have c2: "\<exists>d. fst (secret_to_dic nested_store (Some ''a/b/c''))
             = Inr [(last (split CHR ''/'' ''a/b/c''), d)]
          \<and> map_of d ''username'' = Some ''shadow''" by blast
  from t g have c3: "\<exists>ss d. fst (group_to_dic nested_store (Some ''/a/b'')) = Inr ss
          \<and> length ss = length (entries (Group ''b'' [entry_c,
                     \<lparr>title = ''d'', username = None, password = Some ''q'', url = None,
                      custom_properties = []\<rparr>] [Group ''deep'' [] []]))
          \<and> ss ! 0 = [(title entry_c, d)] \<and> map_of d ''username'' = Some ''shadow''" by blast
  from h1 h2 h3 c1 c2 c3 show ?thesis by (intro conjI)
qed

end
